theory Spec2Isabelle
  imports Complex_Main
begin

section \<open>Data model of routing.cpp\<close>

text \<open>
  The program keeps four global 26 x 26 tables indexed by node number (letter minus 65).
  A table is modelled as a function of the two indices; only indices below 26 are ever
  read or written by the program, and the model never looks at any other cell.

  \<^item> \<open>capacity\<close>, \<open>availCap\<close> and \<open>propDelay\<close> are \<open>float\<close> arrays in the source, but
    every value stored in them is an \<open>int\<close> read from the topology file, changed only by
    adding or subtracting integers. They are modelled as \<open>int\<close> (exact as long as the
    magnitudes stay below \<open>2 ^ 24\<close>, where \<open>float\<close> arithmetic on integers is exact).
  \<^item> \<open>cost\<close> holds fractions under LLP and MFC and is modelled as \<open>rat\<close>.
  \<^item> call times are \<open>double\<close> in the source and \<open>rat\<close> here.
\<close>

type_synonym table = "nat \<Rightarrow> nat \<Rightarrow> int"
type_synonym ftable = "nat \<Rightarrow> nat \<Rightarrow> rat"

definition set2 :: "(nat \<Rightarrow> nat \<Rightarrow> 'a) \<Rightarrow> nat \<Rightarrow> nat \<Rightarrow> 'a \<Rightarrow> (nat \<Rightarrow> nat \<Rightarrow> 'a)" where
  \<comment> \<open>the assignment \<open>t[i][j] = v\<close>\<close>
  "set2 t i j v = t(i := (t i)(j := v))"

definition nodes :: "nat list" where
  \<comment> \<open>the range of every \<open>for (int i = 0; i < 26; i++)\<close>\<close>
  "nodes = [0..<26]"

record CallEvent =
  startTime :: rat
  duration :: rat
  endTime :: rat
  source :: nat
  destination :: nat
  running :: bool
  resources :: table

definition mkCallEvent :: "rat \<Rightarrow> rat \<Rightarrow> nat \<Rightarrow> nat \<Rightarrow> CallEvent" where
  \<comment> \<open>the constructor \<open>CallEvent(s, d, sr, dst)\<close>\<close>
  "mkCallEvent s d sr dst =
     \<lparr>startTime = s, duration = d, endTime = s + d, source = sr, destination = dst,
      running = False, resources = (\<lambda>i j. 0)\<rparr>"

definition reset :: "CallEvent \<Rightarrow> CallEvent" where
  \<comment> \<open>\<open>CallEvent::reset\<close>\<close>
  "reset e = e\<lparr>running := False, resources := (\<lambda>i j. 0)\<rparr>"

text \<open>
  The statistics are \<open>double\<close> variables. The counters only ever hold integers. A quotient
  of two of them is \<open>None\<close> when the divisor is zero: the source then performs an IEEE
  division by zero, whose result (NaN or an infinity) is not a number.
\<close>

record state =
  propDelay :: table
  capacity :: table
  availCap :: table
  cost :: ftable
  eventQueue :: "CallEvent list"
  blockedCalls :: int
  succCalls :: int
  totalSuccCalls :: int
  totalCalls :: int
  totalHops :: int
  totalProp :: int
  blockedPercent :: "rat option"
  succPercent :: "rat option"
  avgHop :: "rat option"
  avgProp :: "rat option"

definition fdiv :: "int \<Rightarrow> int \<Rightarrow> rat option" where
  "fdiv a b = (if b = 0 then None else Some (of_int a / of_int b))"

definition clearValues :: "state \<Rightarrow> state" where
  "clearValues s =
     s\<lparr>blockedCalls := 0, succCalls := 0, totalSuccCalls := 0, totalHops := 0, totalProp := 0,
       blockedPercent := Some 0, succPercent := Some 0, avgHop := Some 0, avgProp := Some 0,
       availCap := capacity s,
       eventQueue := map reset (eventQueue s),
       cost := (\<lambda>i j. 0)\<rparr>"

section \<open>timeUpdate: recovering the resources of finished calls\<close>

definition reclaim_cell :: "nat \<Rightarrow> nat \<Rightarrow> table \<times> table \<Rightarrow> table \<times> table" where
  \<comment> \<open>the body of the two inner loops of \<open>timeUpdate\<close>, on \<open>(availCap, resources)\<close>\<close>
  "reclaim_cell k m = (\<lambda>(av, rs).
     if rs k m > 0 then
       let av1 = set2 av m k (av m k + rs k m);
           av2 = set2 av1 k m (av1 m k);
           rs1 = set2 rs m k 0;
           rs2 = set2 rs1 k m 0
       in (av2, rs2)
     else (av, rs))"

definition reclaim :: "table \<times> table \<Rightarrow> table \<times> table" where
  "reclaim = fold (\<lambda>k. fold (\<lambda>m. reclaim_cell k m) nodes) nodes"

definition endEvent :: "nat \<Rightarrow> state \<Rightarrow> state" where
  \<comment> \<open>the block under "end event": the call stops running and its resources go back\<close>
  "endEvent j s =
     (let e = eventQueue s ! j;
          (av, rs) = reclaim (availCap s, resources e)
      in s\<lparr>availCap := av,
            eventQueue := (eventQueue s)[j := e\<lparr>running := False, resources := rs\<rparr>]\<rparr>)"

definition timeUpdate_step :: "nat \<Rightarrow> nat \<Rightarrow> state \<Rightarrow> state" where
  "timeUpdate_step currentIndex j s =
     (if running (eventQueue s ! j) then
        if endTime (eventQueue s ! j) \<le> startTime (eventQueue s ! currentIndex)
        then endEvent j s else s
      else s)"

definition timeUpdate :: "nat \<Rightarrow> state \<Rightarrow> state" where
  \<comment> \<open>called by \<open>main\<close> only with \<open>currentIndex < eventQueue.size()\<close>, so no \<open>at()\<close> throws\<close>
  "timeUpdate currentIndex s = fold (timeUpdate_step currentIndex) [0..<currentIndex] s"

section \<open>Edge costs\<close>

definition updateSHPF :: "state \<Rightarrow> state" where
  "updateSHPF s =
     s\<lparr>cost := fold (\<lambda>k. fold (\<lambda>m c.
          if availCap s k m > 0 then set2 (set2 c k m 1) m k 1
          else set2 (set2 c k m 0) m k 0) nodes) nodes (cost s)\<rparr>"

text \<open>
  For a pair of nodes without a link the source computes \<open>0.0f / 0.0f\<close>, a NaN, where the
  model has \<open>0 / 0 = 0\<close>. The path search reads the cost of a pair only when its available
  capacity is positive (lemma \<open>search_cong\<close> below), so these cells never matter.
\<close>

definition updateLLP :: "state \<Rightarrow> state" where
  "updateLLP s =
     s\<lparr>cost := fold (\<lambda>k. fold (\<lambda>m c.
          set2 c k m (1 - of_int (availCap s k m) / of_int (capacity s k m))) nodes) nodes (cost s)\<rparr>"

definition updateMFC :: "state \<Rightarrow> state" where
  "updateMFC s =
     s\<lparr>cost := fold (\<lambda>k. fold (\<lambda>m c.
          set2 c k m (of_int (availCap s k m) / of_int (capacity s k m))) nodes) nodes (cost s)\<rparr>"

section \<open>The path search\<close>

definition minDistVertexInQueue :: "(nat \<Rightarrow> int) \<Rightarrow> (nat \<Rightarrow> int) \<Rightarrow> nat" where
  "minDistVertexInQueue distTo queue =
     snd (fold (\<lambda>i (minVal, minIndex).
            if queue i = 1 \<and> distTo i < minVal then (distTo i, i) else (minVal, minIndex))
          nodes (999, 50))"

definition trunc :: "rat \<Rightarrow> int" where
  \<comment> \<open>conversion of a floating-point value to \<open>int\<close>: the fraction is dropped\<close>
  "trunc x = (if 0 \<le> x then \<lfloor>x\<rfloor> else \<lceil>x\<rceil>)"

definition initQueue :: "table \<Rightarrow> (nat \<Rightarrow> int) \<times> nat" where
  \<comment> \<open>"init queue to determine which vertices exist": the queue flags and the queue size\<close>
  "initQueue tab =
     fold (\<lambda>i. fold (\<lambda>j (queue, qsize).
        if tab i j > 0 then
          (if queue i = 0 then (queue(i := 1), qsize + 1) else (queue, qsize))
        else (queue, qsize)) nodes) nodes ((\<lambda>i. 0), 0)"

definition relax :: "table \<Rightarrow> ftable \<Rightarrow> (nat \<Rightarrow> int) \<Rightarrow> nat \<Rightarrow>
    (nat \<Rightarrow> int) \<times> (nat \<Rightarrow> int) \<Rightarrow> (nat \<Rightarrow> int) \<times> (nat \<Rightarrow> int)" where
  \<comment> \<open>the loop "for all the vertices" on \<open>(distTo, previousVertex)\<close>\<close>
  "relax nbr edgeCost queue u =
     fold (\<lambda>j (distTo, previousVertex).
        if queue j > 0 then
          if nbr u j > 0 then
            let alt = trunc (of_int (distTo u) + edgeCost u j)
            in if alt < distTo j then (distTo(j := alt), previousVertex(j := int u))
               else (distTo, previousVertex)
          else (distTo, previousVertex)
        else (distTo, previousVertex)) nodes"

fun dijkstra :: "table \<Rightarrow> ftable \<Rightarrow> nat \<Rightarrow> nat \<Rightarrow> (nat \<Rightarrow> int) \<Rightarrow>
    (nat \<Rightarrow> int) \<times> (nat \<Rightarrow> int) \<Rightarrow> int \<times> (nat \<Rightarrow> int) \<times> (nat \<Rightarrow> int)" where
  \<comment> \<open>the loop \<open>while (size > 0)\<close>; the result is \<open>(foundFlag, dist, previousVertex)\<close>\<close>
  "dijkstra nbr edgeCost dest 0 queue (distTo, previousVertex) = (0, distTo, previousVertex)"
| "dijkstra nbr edgeCost dest (Suc qsize) queue (distTo, previousVertex) =
     (let u = minDistVertexInQueue distTo queue
      in if u > 27 then (0, distTo, previousVertex)
         else let queue1 = queue(u := 0)
              in if u = dest then (1, distTo, previousVertex)
                 else dijkstra nbr edgeCost dest qsize queue1
                        (relax nbr edgeCost queue1 u (distTo, previousVertex)))"

definition search :: "table \<Rightarrow> table \<Rightarrow> ftable \<Rightarrow> nat \<Rightarrow> nat \<Rightarrow> int \<times> (nat \<Rightarrow> int) \<times> (nat \<Rightarrow> int)" where
  \<comment> \<open>the text shared by \<open>updateState\<close> and \<open>emptySHPO\<close> up to "quit if no path was found";
      \<open>exist\<close> is the table that fills the queue, \<open>nbr\<close> the one that tells the neighbours\<close>
  "search exist nbr edgeCost src dest =
     (let (queue, qsize) = initQueue exist
      in dijkstra nbr edgeCost dest qsize queue ((\<lambda>i. 999)(src := 0), (\<lambda>i. - 1)))"

partial_function (option) countHops :: "(nat \<Rightarrow> int) \<Rightarrow> nat \<Rightarrow> int \<Rightarrow> int option" where
  \<comment> \<open>the loop \<open>while (previousVertex[currV] > -1)\<close> of \<open>emptySHPO\<close>\<close>
  "countHops previousVertex currV hopPath1 =
     (if previousVertex currV > - 1
      then countHops previousVertex (nat (previousVertex currV)) (hopPath1 + 1)
      else Some hopPath1)"

definition emptySHPO :: "state \<Rightarrow> nat \<Rightarrow> nat \<Rightarrow> ftable \<Rightarrow> table \<Rightarrow> int option" where
  "emptySHPO s src dest edgeCost capZero =
     (case search (capacity s) capZero edgeCost src dest of
        (foundFlag, distTo, previousVertex) \<Rightarrow>
          if foundFlag \<noteq> 1 then Some 999 else countHops previousVertex dest 0)"

definition reserveLink :: "nat \<Rightarrow> nat \<Rightarrow> nat \<Rightarrow> state \<Rightarrow> state" where
  \<comment> \<open>one turn of the loop of \<open>updateState\<close> on the link between \<open>currV\<close> and its previous
      vertex \<open>pv\<close>: one circuit less on the link, one more held by the event \<open>current\<close>\<close>
  "reserveLink current currV pv s =
     (let av1 = set2 (availCap s) pv currV (availCap s pv currV - 1);
          av2 = set2 av1 currV pv (av1 pv currV);
          e = eventQueue s ! current;
          rs1 = set2 (resources e) pv currV (resources e pv currV + 1);
          rs2 = set2 rs1 currV pv (rs1 pv currV)
      in s\<lparr>availCap := av2,
            eventQueue := (eventQueue s)[current := e\<lparr>resources := rs2\<rparr>],
            totalProp := totalProp s + propDelay s currV pv,
            totalHops := totalHops s + 1\<rparr>)"

partial_function (option) reserve :: "(nat \<Rightarrow> int) \<Rightarrow> nat \<Rightarrow> nat \<Rightarrow> state \<Rightarrow> state option" where
  \<comment> \<open>the loop \<open>while (previousVertex[curr] > -1)\<close> of \<open>updateState\<close>\<close>
  "reserve previousVertex current currV s =
     (if previousVertex currV > - 1
      then reserve previousVertex current (nat (previousVertex currV))
             (reserveLink current currV (nat (previousVertex currV)) s)
      else Some s)"

definition updateState :: "nat \<Rightarrow> nat \<Rightarrow> ftable \<Rightarrow> nat \<Rightarrow> state \<Rightarrow> (bool \<times> state) option" where
  "updateState src dest edgeCost current s =
     (case search (availCap s) (availCap s) edgeCost src dest of
        (foundFlag, distTo, previousVertex) \<Rightarrow>
          if foundFlag \<noteq> 1 then Some (False, s)
          else map_option (Pair True) (reserve previousVertex current dest s))"

section \<open>main: the five policy runs\<close>

datatype policy = SHPF | SDPF | LLP | MFC | SHPO

definition updateCost :: "policy \<Rightarrow> state \<Rightarrow> state" where
  \<comment> \<open>"update edge costs" of each policy's loop; SDPF has none\<close>
  "updateCost p s = (case p of SHPF \<Rightarrow> updateSHPF s | SDPF \<Rightarrow> s | LLP \<Rightarrow> updateLLP s
                     | MFC \<Rightarrow> updateMFC s | SHPO \<Rightarrow> updateSHPF s)"

definition edgeCostOf :: "policy \<Rightarrow> state \<Rightarrow> ftable" where
  \<comment> \<open>the table handed to the search: \<open>propDelay\<close> under SDPF, \<open>cost\<close> otherwise\<close>
  "edgeCostOf p s = (case p of SDPF \<Rightarrow> (\<lambda>i j. of_int (propDelay s i j)) | _ \<Rightarrow> cost s)"

definition setRunning :: "nat \<Rightarrow> bool \<Rightarrow> state \<Rightarrow> state" where
  \<comment> \<open>\<open>eventQueue.at(i).running = b\<close>\<close>
  "setRunning i b s = s\<lparr>eventQueue := (eventQueue s)[i := (eventQueue s ! i)\<lparr>running := b\<rparr>]\<rparr>"

definition loadEvent :: "policy \<Rightarrow> nat \<Rightarrow> state \<Rightarrow> state" where
  \<comment> \<open>the branch \<open>i < eventQueue.size()\<close>: time update, running flag, edge costs\<close>
  "loadEvent p i s = updateCost p (setRunning i True (timeUpdate i s))"

definition blocked :: "nat \<Rightarrow> state \<Rightarrow> state" where
  "blocked i s = setRunning i False (s\<lparr>blockedCalls := blockedCalls s + 1\<rparr>)"

definition routeEvent :: "policy \<Rightarrow> nat \<Rightarrow> state \<Rightarrow> state option" where
  \<comment> \<open>the admission decision on the loaded event \<open>i\<close>\<close>
  "routeEvent p i s =
     (let src = source (eventQueue s ! i); dst = destination (eventQueue s ! i)
      in if p = SHPO then
           (case emptySHPO s src dst (cost s) (availCap s) of None \<Rightarrow> None
            | Some hop2 \<Rightarrow>
               (case emptySHPO s src dst (cost s) (capacity s) of None \<Rightarrow> None
                | Some hopEmpty \<Rightarrow>
                   if hop2 > hopEmpty then Some (blocked i s)
                   else (case updateState src dst (cost s) i s of None \<Rightarrow> None
                         | Some (r, s') \<Rightarrow> Some (s'\<lparr>succCalls := succCalls s' + 1\<rparr>))))
         else
           (case updateState src dst (edgeCostOf p s) i s of None \<Rightarrow> None
            | Some (r, s') \<Rightarrow>
                if r = False then Some (blocked i s')
                else Some (s'\<lparr>succCalls := succCalls s' + 1\<rparr>)))"

definition processEvent :: "policy \<Rightarrow> nat \<Rightarrow> state \<Rightarrow> state option" where
  "processEvent p i s = routeEvent p i (loadEvent p i s)"

partial_function (option) simLoop :: "policy \<Rightarrow> nat \<Rightarrow> state \<Rightarrow> state option" where
  \<comment> \<open>the inner \<open>while (1)\<close> of a policy, from event \<open>i\<close> on\<close>
  "simLoop p i s =
     (if i < length (eventQueue s)
      then (case processEvent p i s of None \<Rightarrow> None | Some s' \<Rightarrow> simLoop p (i + 1) s')
      else Some s)"

definition statistics :: "state \<Rightarrow> state" where
  \<comment> \<open>"calculate and print statistics"\<close>
  "statistics s =
     s\<lparr>avgProp := fdiv (totalProp s) (succCalls s),
       avgHop := fdiv (totalHops s) (succCalls s),
       succPercent := map_option (\<lambda>q. q * 100) (fdiv (succCalls s) (totalCalls s)),
       blockedPercent := map_option (\<lambda>q. q * 100) (fdiv (blockedCalls s) (totalCalls s))\<rparr>"

definition runPolicy :: "policy \<Rightarrow> state \<Rightarrow> state option" where
  \<comment> \<open>one policy block of \<open>main\<close> up to \<open>printRes\<close>: the state whose statistics are printed\<close>
  "runPolicy p s = map_option statistics (simLoop p 0 s)"

text \<open>
  The input files. A topology line is \<open>(a, b, c, d)\<close>: two node letters, the propagation
  delay and the capacity. A workload line is \<open>(a, b, c, d)\<close>: arrival time, the two node
  letters and the duration. A letter's node number is its code minus 65, which is a valid
  index for the capital letters only.
\<close>

definition node :: "char \<Rightarrow> nat" where
  "node a = of_char a - 65"

definition validNode :: "char \<Rightarrow> bool" where
  "validNode a = (65 \<le> (of_char a :: nat) \<and> (of_char a :: nat) \<le> 90)"

definition initState :: state where
  \<comment> \<open>the zero-initialised globals\<close>
  "initState =
     \<lparr>propDelay = (\<lambda>i j. 0), capacity = (\<lambda>i j. 0), availCap = (\<lambda>i j. 0), cost = (\<lambda>i j. 0),
      eventQueue = [], blockedCalls = 0, succCalls = 0, totalSuccCalls = 0, totalCalls = 0,
      totalHops = 0, totalProp = 0, blockedPercent = Some 0, succPercent = Some 0,
      avgHop = Some 0, avgProp = Some 0\<rparr>"

definition loadLink :: "char \<times> char \<times> int \<times> int \<Rightarrow> state \<Rightarrow> state" where
  "loadLink = (\<lambda>(a, b, c, d) s.
     let src = node a; dest = node b
     in s\<lparr>propDelay := set2 (set2 (propDelay s) dest src c) src dest c,
           capacity := set2 (set2 (capacity s) dest src d) src dest d,
           availCap := set2 (set2 (availCap s) dest src d) src dest d\<rparr>)"

definition loadCall :: "rat \<times> char \<times> char \<times> rat \<Rightarrow> state \<Rightarrow> state" where
  "loadCall = (\<lambda>(a, b, c, d) s.
     s\<lparr>totalCalls := totalCalls s + 1,
       eventQueue := eventQueue s @ [mkCallEvent a d (node b) (node c)]\<rparr>)"

definition load :: "(char \<times> char \<times> int \<times> int) list \<Rightarrow> (rat \<times> char \<times> char \<times> rat) list \<Rightarrow> state" where
  "load topology calls = fold loadCall calls (fold loadLink topology initState)"

fun runPolicies :: "policy list \<Rightarrow> state \<Rightarrow> (state list \<times> state) option" where
  \<comment> \<open>the policy blocks in turn: the printed states, and the state after the last reset\<close>
  "runPolicies [] s = Some ([], s)"
| "runPolicies (p # ps) s =
     (case runPolicy p s of None \<Rightarrow> None
      | Some r \<Rightarrow> (case runPolicies ps (clearValues r) of None \<Rightarrow> None
                   | Some (rs, s') \<Rightarrow> Some (r # rs, s')))"

definition main :: "(char \<times> char \<times> int \<times> int) list \<Rightarrow> (rat \<times> char \<times> char \<times> rat) list \<Rightarrow>
    (state list \<times> state) option" where
  "main topology calls = runPolicies [SHPF, SDPF, LLP, MFC, SHPO] (load topology calls)"

section \<open>Properties of the tables\<close>

definition symT :: "(nat \<Rightarrow> nat \<Rightarrow> 'a) \<Rightarrow> bool" where
  \<comment> \<open>a table that reads the same in both directions of every pair of nodes\<close>
  "symT t = (\<forall>u v. t u v = t v u)"

definition cells :: "(nat \<times> nat) list" where
  \<comment> \<open>the cells \<open>[k][m]\<close> in the order the two nested loops visit them\<close>
  "cells = List.product nodes nodes"

definition reserved ::  "state \<Rightarrow> nat \<Rightarrow> nat \<Rightarrow> int" where
  "reserved s u v = sum_list (map (\<lambda>e. resources e u v) (eventQueue s))"

definition symmetric :: "state \<Rightarrow> bool" where
  "symmetric s = (symT (availCap s) \<and> symT (capacity s) \<and> (\<forall>e \<in> set (eventQueue s). symT (resources e)))"

definition conserved :: "state \<Rightarrow> bool" where
  "conserved s = (\<forall>u v. availCap s u v + reserved s u v = capacity s u v)"

definition nonneg :: "state \<Rightarrow> bool" where
  "nonneg s = (\<forall>e \<in> set (eventQueue s). \<forall>u v. 0 \<le> resources e u v)"

definition parsed :: "CallEvent \<Rightarrow> rat \<times> rat \<times> rat \<times> nat \<times> nat" where
  "parsed e = (startTime e, duration e, endTime e, source e, destination e)"

definition expires :: "state \<Rightarrow> nat \<Rightarrow> nat \<Rightarrow> bool" where
  "expires s i j = (running (eventQueue s ! j) \<and> endTime (eventQueue s ! j) \<le> startTime (eventQueue s ! i))"


definition held :: "table \<Rightarrow> nat \<Rightarrow> nat \<Rightarrow> table" where
  "held rs v pv = (\<lambda>a b. if (a = pv \<and> b = v) \<or> (a = v \<and> b = pv) then rs pv v + 1 else rs a b)"

definition inv :: "state \<Rightarrow> bool" where
  "inv s = (symmetric s \<and> conserved s \<and> nonneg s)"

inductive reached :: "state \<Rightarrow> state \<Rightarrow> bool" for s0 where
  start: "reached s0 s0"
| release: "reached s0 s \<Longrightarrow> i < length (eventQueue s) \<Longrightarrow> reached s0 (timeUpdate i s)"
| loaded: "reached s0 s \<Longrightarrow> i < length (eventQueue s) \<Longrightarrow> reached s0 (loadEvent p i s)"
| routed: "reached s0 s \<Longrightarrow> i < length (eventQueue s) \<Longrightarrow> routeEvent p i s = Some s' \<Longrightarrow> reached s0 s'"
| stats: "reached s0 s \<Longrightarrow> reached s0 (statistics s)"
| cleared: "reached s0 s \<Longrightarrow> reached s0 (clearValues s)"

definition validTopology :: "(char \<times> char \<times> int \<times> int) list \<Rightarrow> bool" where
  "validTopology topology = (\<forall>(a, b, c, d) \<in> set topology. validNode a \<and> validNode b)"

definition validCalls :: "(rat \<times> char \<times> char \<times> rat) list \<Rightarrow> bool" where
  "validCalls calls = (\<forall>(a, b, c, d) \<in> set calls. validNode b \<and> validNode c)"

definition callOf :: "rat \<times> char \<times> char \<times> rat \<Rightarrow> CallEvent" where
  "callOf = (\<lambda>(a, b, c, d). mkCallEvent a d (node b) (node c))"

definition linkAB :: "(char \<times> char \<times> int \<times> int) list" where
  "linkAB = [(CHR ''A'', CHR ''B'', 5, 2)]"

definition threeCalls :: "(rat \<times> char \<times> char \<times> rat) list" where
  "threeCalls = [(0, CHR ''A'', CHR ''B'', 10), (1, CHR ''A'', CHR ''B'', 10), (2, CHR ''A'', CHR ''B'', 10)]"



definition twoLinks :: "(char \<times> char \<times> int \<times> int) list" where
  "twoLinks = [(CHR ''A'', CHR ''B'', 5, 1), (CHR ''C'', CHR ''D'', 5, 1)]"

definition callAC :: "(rat \<times> char \<times> char \<times> rat) list" where
  "callAC = [(0, CHR ''A'', CHR ''C'', 10)]"

definition triangle :: "(char \<times> char \<times> int \<times> int) list" where
  "triangle = [(CHR ''A'', CHR ''B'', 1, 2), (CHR ''A'', CHR ''C'', 1, 2), (CHR ''C'', CHR ''B'', 1, 2)]"

definition twoCallsAB :: "(rat \<times> char \<times> char \<times> rat) list" where
  "twoCallsAB = [(0, CHR ''A'', CHR ''B'', 100), (1, CHR ''A'', CHR ''B'', 100)]"

definition sevenLinks :: "(char \<times> char \<times> int \<times> int) list" where
  "sevenLinks = [(CHR ''A'', CHR ''C'', 1, 2), (CHR ''C'', CHR ''B'', 1, 1), (CHR ''C'', CHR ''D'', 1, 2),
     (CHR ''D'', CHR ''B'', 1, 2), (CHR ''A'', CHR ''E'', 1, 1), (CHR ''E'', CHR ''F'', 1, 1),
     (CHR ''F'', CHR ''B'', 1, 1)]"

definition fiveCalls :: "(rat \<times> char \<times> char \<times> rat) list" where
  "fiveCalls = [(0, CHR ''C'', CHR ''B'', 100), (0, CHR ''A'', CHR ''E'', 100), (0, CHR ''E'', CHR ''F'', 100),
     (0, CHR ''F'', CHR ''B'', 100), (1, CHR ''A'', CHR ''B'', 10)]"

definition farLink :: "(char \<times> char \<times> int \<times> int) list" where
  "farLink = [(CHR ''A'', CHR ''B'', 999, 1)]"

definition callAB :: "(rat \<times> char \<times> char \<times> rat) list" where
  "callAB = [(0, CHR ''A'', CHR ''B'', 10)]"

section \<open>Closed forms of the edge-cost loops\<close>

lemma set2_apply: "set2 t i j v a b = (if a = i \<and> b = j then v else t a b)"
  by (simp add: set2_def)

lemma fill_row:
  "fold (\<lambda>m c. set2 c k m (g k m)) [0..<n] c = (\<lambda>a b. if a = k \<and> b < n then g k b else c a b)"
proof (induction n)
  case 0
  show ?case by simp
next
  case (Suc n)
  have "fold (\<lambda>m c. set2 c k m (g k m)) [0..<Suc n] c =
        set2 (fold (\<lambda>m c. set2 c k m (g k m)) [0..<n] c) k n (g k n)"
    by simp
  also have "\<dots> = (\<lambda>a b. if a = k \<and> b < Suc n then g k b else c a b)"
    unfolding Suc by (intro ext) (auto simp: set2_apply)
  finally show ?case .
qed

lemma fill_table:
  "fold (\<lambda>k. fold (\<lambda>m c. set2 c k m (g k m)) [0..<n]) [0..<n'] c =
     (\<lambda>a b. if a < n' \<and> b < n then g a b else c a b)"
proof (induction n')
  case 0
  show ?case by simp
next
  case (Suc n')
  have "fold (\<lambda>k. fold (\<lambda>m c. set2 c k m (g k m)) [0..<n]) [0..<Suc n'] c =
        fold (\<lambda>m c. set2 c n' m (g n' m)) [0..<n]
          (fold (\<lambda>k. fold (\<lambda>m c. set2 c k m (g k m)) [0..<n]) [0..<n'] c)"
    by simp
  also have "\<dots> = (\<lambda>a b. if a < Suc n' \<and> b < n then g a b else c a b)"
    unfolding Suc fill_row by (intro ext) auto
  finally show ?case .
qed

lemma updateLLP_eq:
  "updateLLP s = s\<lparr>cost := (\<lambda>k m. if k < 26 \<and> m < 26
       then 1 - of_int (availCap s k m) / of_int (capacity s k m) else cost s k m)\<rparr>"
  unfolding updateLLP_def nodes_def fill_table ..

lemma updateMFC_eq:
  "updateMFC s = s\<lparr>cost := (\<lambda>k m. if k < 26 \<and> m < 26
       then of_int (availCap s k m) / of_int (capacity s k m) else cost s k m)\<rparr>"
  unfolding updateMFC_def nodes_def fill_table ..

lemma fill_row_sym:
  "fold (\<lambda>m c. set2 (set2 c k m (g k m)) m k (g k m)) [0..<n] c =
     (\<lambda>a b. if a = k \<and> b < n then g k b else if b = k \<and> a < n then g k a else c a b)"
proof (induction n)
  case 0
  show ?case by simp
next
  case (Suc n)
  have "fold (\<lambda>m c. set2 (set2 c k m (g k m)) m k (g k m)) [0..<Suc n] c =
        set2 (set2 (fold (\<lambda>m c. set2 (set2 c k m (g k m)) m k (g k m)) [0..<n] c) k n (g k n)) n k (g k n)"
    by simp
  also have "\<dots> = (\<lambda>a b. if a = k \<and> b < Suc n then g k b else if b = k \<and> a < Suc n then g k a else c a b)"
    unfolding Suc by (intro ext) (auto simp: set2_apply)
  finally show ?case .
qed

lemma fill_table_sym:
  "n' \<le> n \<Longrightarrow> fold (\<lambda>k. fold (\<lambda>m c. set2 (set2 c k m (g k m)) m k (g k m)) [0..<n]) [0..<n'] c =
     (\<lambda>a b. if a < n \<and> b < n then
               (if a < n' \<and> (b \<le> a \<or> n' \<le> b) then g a b else if b < n' then g b a else c a b)
             else c a b)"
proof (induction n')
  case 0
  show ?case by (intro ext) simp
next
  case (Suc n')
  then have le: "n' \<le> n" by simp
  have "fold (\<lambda>k. fold (\<lambda>m c. set2 (set2 c k m (g k m)) m k (g k m)) [0..<n]) [0..<Suc n'] c =
        fold (\<lambda>m c. set2 (set2 c n' m (g n' m)) m n' (g n' m)) [0..<n]
          (fold (\<lambda>k. fold (\<lambda>m c. set2 (set2 c k m (g k m)) m k (g k m)) [0..<n]) [0..<n'] c)"
    by simp
  also have "\<dots> = (\<lambda>a b. if a < n \<and> b < n then
               (if a < Suc n' \<and> (b \<le> a \<or> Suc n' \<le> b) then g a b else if b < Suc n' then g b a else c a b)
             else c a b)"
    unfolding Suc.IH [OF le] fill_row_sym using Suc.prems by (intro ext) auto
  finally show ?case .
qed

lemma updateSHPF_eq:
  "updateSHPF s = s\<lparr>cost := (\<lambda>k m. if k < 26 \<and> m < 26
       then (if availCap s (max k m) (min k m) > 0 then 1 else 0) else cost s k m)\<rparr>"
proof -
  let ?g = "\<lambda>k m. if availCap s k m > 0 then (1::rat) else 0"
  have body: "(\<lambda>m c. if availCap s k m > 0 then set2 (set2 c k m 1) m k 1
          else set2 (set2 c k m 0) m k 0) = (\<lambda>m c. set2 (set2 c k m (?g k m)) m k (?g k m))" for k
    by (intro ext) simp
  have "cost (updateSHPF s) = fold (\<lambda>k. fold (\<lambda>m c. set2 (set2 c k m (?g k m)) m k (?g k m)) [0..<26]) [0..<26] (cost s)"
    unfolding updateSHPF_def nodes_def body by simp
  also have "\<dots> = (\<lambda>k m. if k < 26 \<and> m < 26
       then (if availCap s (max k m) (min k m) > 0 then 1 else 0) else cost s k m)"
    by (subst fill_table_sym) (auto simp: max_def min_def intro!: ext)
  finally show ?thesis by (simp add: updateSHPF_def)
qed

section \<open>The release loops\<close>

lemma fold_product:
  "fold (\<lambda>k. fold (f k) ms) ks x = fold (\<lambda>(k, m). f k m) (List.product ks ms) x"
  by (induction ks arbitrary: x) (simp_all add: fold_map comp_def)

lemma reclaim_cells: "reclaim = fold (\<lambda>(k, m). reclaim_cell k m) cells"
  unfolding reclaim_def cells_def by (intro ext) (rule fold_product)


lemma reclaim_cell_fst:
  "fst (reclaim_cell k m (av, rs)) u v =
     (if rs k m > 0 \<and> ((u = k \<and> v = m) \<or> (u = m \<and> v = k)) then av m k + rs k m else av u v)"
  by (auto simp: reclaim_cell_def set2_apply Let_def)

lemma reclaim_cell_snd:
  "snd (reclaim_cell k m (av, rs)) u v =
     (if rs k m > 0 \<and> ((u = k \<and> v = m) \<or> (u = m \<and> v = k)) then 0 else rs u v)"
  by (auto simp: reclaim_cell_def set2_apply Let_def)

lemma reclaim_cell_le: "snd x u v \<le> 0 \<Longrightarrow> snd (reclaim_cell k m x) u v \<le> 0"
  by (cases x) (simp add: reclaim_cell_snd)

lemma reclaim_cell_done: "snd (reclaim_cell k m x) k m \<le> 0"
  by (cases x) (simp add: reclaim_cell_snd)

lemma reclaim_cell_nonneg: "\<forall>u v. 0 \<le> snd x u v \<Longrightarrow> 0 \<le> snd (reclaim_cell k m x) u v"
  by (cases x) (simp add: reclaim_cell_snd)

lemma reclaim_cell_sym:
  assumes "symT (fst x)" "symT (snd x)"
  shows "symT (fst (reclaim_cell k m x)) \<and> symT (snd (reclaim_cell k m x))"
proof -
  obtain av rs where x: "x = (av, rs)" by (cases x)
  have av: "av u v = av v u" and rs: "rs u v = rs v u" for u v
    using assms by (simp_all add: symT_def x)
  have "fst (reclaim_cell k m (av, rs)) u v = fst (reclaim_cell k m (av, rs)) v u" for u v
    unfolding reclaim_cell_fst using av [of u v] by auto
  moreover have "snd (reclaim_cell k m (av, rs)) u v = snd (reclaim_cell k m (av, rs)) v u" for u v
    unfolding reclaim_cell_snd using rs [of u v] by auto
  ultimately show ?thesis by (simp add: symT_def x)
qed

lemma reclaim_cell_total:
  assumes "symT (fst x)" "symT (snd x)"
  shows "fst (reclaim_cell k m x) u v + snd (reclaim_cell k m x) u v = fst x u v + snd x u v"
proof -
  obtain av rs where x: "x = (av, rs)" by (cases x)
  have av: "av m k = av k m" and rs: "rs m k = rs k m"
    using assms by (simp_all add: symT_def x)
  show ?thesis
    unfolding x reclaim_cell_fst reclaim_cell_snd using av rs by auto
qed

lemma reclaim_cell_id: "snd x k m \<le> 0 \<Longrightarrow> reclaim_cell k m x = x"
  by (cases x) (simp add: reclaim_cell_def)

lemma fold_cells_le:
  "snd x u v \<le> 0 \<Longrightarrow> snd (fold (\<lambda>(k, m). reclaim_cell k m) cs x) u v \<le> 0"
proof (induction cs arbitrary: x)
  case Nil
  then show ?case by simp
next
  case (Cons c cs)
  obtain k m where c: "c = (k, m)" by (cases c)
  have "snd (reclaim_cell k m x) u v \<le> 0"
    using Cons.prems by (rule reclaim_cell_le)
  from Cons.IH [OF this] show ?case by (simp add: c)
qed

lemma fold_cells_done:
  "(k, m) \<in> set cs \<Longrightarrow> snd (fold (\<lambda>(k, m). reclaim_cell k m) cs x) k m \<le> 0"
proof (induction cs arbitrary: x)
  case Nil
  then show ?case by simp
next
  case (Cons c cs)
  obtain k' m' where c: "c = (k', m')" by (cases c)
  show ?case
  proof (cases "(k, m) \<in> set cs")
    case True
    from Cons.IH [OF this] show ?thesis by (simp add: c)
  next
    case False
    with Cons.prems c have "k' = k" "m' = m" by simp_all
    then show ?thesis
      using fold_cells_le [OF reclaim_cell_done [of k m x], of cs] by (simp add: c)
  qed
qed

lemma fold_cells_id:
  "\<forall>(k, m) \<in> set cs. snd x k m \<le> 0 \<Longrightarrow> fold (\<lambda>(k, m). reclaim_cell k m) cs x = x"
proof (induction cs)
  case Nil
  show ?case by simp
next
  case (Cons c cs)
  obtain k m where c: "c = (k, m)" by (cases c)
  from Cons.prems c have "snd x k m \<le> 0" by simp
  then have "reclaim_cell k m x = x" by (rule reclaim_cell_id)
  moreover have "fold (\<lambda>(k, m). reclaim_cell k m) cs x = x"
    using Cons.prems by (intro Cons.IH) simp
  ultimately show ?case by (simp add: c)
qed

lemma fold_cells_nonneg:
  "\<forall>u v. 0 \<le> snd x u v \<Longrightarrow> 0 \<le> snd (fold (\<lambda>(k, m). reclaim_cell k m) cs x) u v"
proof (induction cs arbitrary: x)
  case Nil
  then show ?case by simp
next
  case (Cons c cs)
  obtain k m where c: "c = (k, m)" by (cases c)
  have "\<forall>u v. 0 \<le> snd (reclaim_cell k m x) u v"
    using reclaim_cell_nonneg [OF Cons.prems] by simp
  from Cons.IH [OF this] show ?case by (simp add: c)
qed

lemma fold_cells_sym:
  "symT (fst x) \<Longrightarrow> symT (snd x) \<Longrightarrow>
     symT (fst (fold (\<lambda>(k, m). reclaim_cell k m) cs x)) \<and> symT (snd (fold (\<lambda>(k, m). reclaim_cell k m) cs x))"
proof (induction cs arbitrary: x)
  case Nil
  then show ?case by simp
next
  case (Cons c cs)
  obtain k m where c: "c = (k, m)" by (cases c)
  have "symT (fst (reclaim_cell k m x))" "symT (snd (reclaim_cell k m x))"
    using reclaim_cell_sym [OF Cons.prems] by simp_all
  from Cons.IH [OF this] show ?case by (simp add: c)
qed

lemma fold_cells_total:
  "symT (fst x) \<Longrightarrow> symT (snd x) \<Longrightarrow>
     fst (fold (\<lambda>(k, m). reclaim_cell k m) cs x) u v + snd (fold (\<lambda>(k, m). reclaim_cell k m) cs x) u v
       = fst x u v + snd x u v"
proof (induction cs arbitrary: x)
  case Nil
  show ?case by simp
next
  case (Cons c cs)
  obtain k m where c: "c = (k, m)" by (cases c)
  have "symT (fst (reclaim_cell k m x))" "symT (snd (reclaim_cell k m x))"
    using reclaim_cell_sym [OF Cons.prems] by simp_all
  from Cons.IH [OF this] show ?case
    by (simp add: c reclaim_cell_total [OF Cons.prems])
qed

lemma reclaim_idem: "reclaim (reclaim x) = reclaim x"
  unfolding reclaim_cells by (rule fold_cells_id) (auto simp: fold_cells_done)

lemma reclaim_sym:
  "symT av \<Longrightarrow> symT rs \<Longrightarrow> symT (fst (reclaim (av, rs))) \<and> symT (snd (reclaim (av, rs)))"
  unfolding reclaim_cells using fold_cells_sym [of "(av, rs)"] by simp

lemma reclaim_total:
  "symT av \<Longrightarrow> symT rs \<Longrightarrow> fst (reclaim (av, rs)) u v + snd (reclaim (av, rs)) u v = av u v + rs u v"
  unfolding reclaim_cells using fold_cells_total [of "(av, rs)"] by simp


section \<open>Events that end\<close>

lemma sum_list_map_update:
  "j < length q \<Longrightarrow> sum_list (map f (q[j := e])) = sum_list (map f q) - f (q ! j) + (f e :: int)"
proof (induction q arbitrary: j)
  case Nil
  then show ?case by simp
next
  case (Cons x q)
  show ?case
  proof (cases j)
    case 0
    then show ?thesis by simp
  next
    case (Suc j')
    with Cons.prems have "j' < length q" by simp
    from Cons.IH [OF this] Suc show ?thesis by simp
  qed
qed

lemma set_update_cases: "x \<in> set (q[j := e]) \<Longrightarrow> x = e \<or> x \<in> set q"
  using set_update_subset_insert [of q j e] by blast

lemma map_parsed_update:
  assumes "parsed e = parsed (q ! j)"
  shows "map parsed (q[j := e]) = map parsed q"
proof (cases "j < length q")
  case True
  have "map parsed (q[j := e]) = (map parsed q)[j := parsed e]"
    by (rule map_update)
  also have "parsed e = map parsed q ! j"
    using True assms by simp
  also have "(map parsed q)[j := map parsed q ! j] = map parsed q"
    by (rule list_update_id)
  finally show ?thesis .
next
  case False
  then have "q[j := e] = q" by (intro list_update_beyond) simp
  then show ?thesis by simp
qed

subsection \<open>endEvent\<close>

lemma endEvent_fields [simp]:
  "capacity (endEvent j s) = capacity s" "propDelay (endEvent j s) = propDelay s"
  "cost (endEvent j s) = cost s" "length (eventQueue (endEvent j s)) = length (eventQueue s)"
  "totalHops (endEvent j s) = totalHops s" "totalProp (endEvent j s) = totalProp s"
  "blockedCalls (endEvent j s) = blockedCalls s" "succCalls (endEvent j s) = succCalls s"
  "totalCalls (endEvent j s) = totalCalls s"
  by (simp_all add: endEvent_def Let_def split: prod.split)

lemma endEvent_availCap:
  "availCap (endEvent j s) = fst (reclaim (availCap s, resources (eventQueue s ! j)))"
  by (simp add: endEvent_def Let_def split: prod.split)

lemma endEvent_queue:
  "eventQueue (endEvent j s) = (eventQueue s)[j := (eventQueue s ! j)\<lparr>running := False,
     resources := snd (reclaim (availCap s, resources (eventQueue s ! j)))\<rparr>]"
  by (simp add: endEvent_def Let_def split: prod.split)

lemma endEvent_parsed: "map parsed (eventQueue (endEvent j s)) = map parsed (eventQueue s)"
  unfolding endEvent_queue by (rule map_parsed_update) (simp add: parsed_def)

lemma endEvent_symmetric:
  assumes "symmetric s" "j < length (eventQueue s)"
  shows "symmetric (endEvent j s)"
proof -
  have av: "symT (availCap s)" and rs: "symT (resources (eventQueue s ! j))"
    and cp: "symT (capacity s)" and old: "\<And>e. e \<in> set (eventQueue s) \<Longrightarrow> symT (resources e)"
    using assms by (simp_all add: symmetric_def)
  note r = reclaim_sym [OF av rs]
  have "symT (resources e)" if "e \<in> set (eventQueue (endEvent j s))" for e
  proof -
    from that have "e = (eventQueue s ! j)\<lparr>running := False,
        resources := snd (reclaim (availCap s, resources (eventQueue s ! j)))\<rparr> \<or> e \<in> set (eventQueue s)"
      unfolding endEvent_queue by (rule set_update_cases)
    then show ?thesis using r old by fastforce
  qed
  moreover have "symT (availCap (endEvent j s))"
    using r by (simp add: endEvent_availCap)
  ultimately show ?thesis using cp by (simp add: symmetric_def)
qed

lemma endEvent_nonneg:
  assumes "nonneg s" "j < length (eventQueue s)"
  shows "nonneg (endEvent j s)"
proof -
  have old: "\<And>e u v. e \<in> set (eventQueue s) \<Longrightarrow> 0 \<le> resources e u v"
    using assms(1) by (simp add: nonneg_def)
  have "\<forall>u v. 0 \<le> snd (availCap s, resources (eventQueue s ! j)) u v"
    using assms old by simp
  then have new: "0 \<le> snd (reclaim (availCap s, resources (eventQueue s ! j))) u v" for u v
    unfolding reclaim_cells by (rule fold_cells_nonneg)
  have "0 \<le> resources e u v" if "e \<in> set (eventQueue (endEvent j s))" for e u v
  proof -
    from that have "e = (eventQueue s ! j)\<lparr>running := False,
        resources := snd (reclaim (availCap s, resources (eventQueue s ! j)))\<rparr> \<or> e \<in> set (eventQueue s)"
      unfolding endEvent_queue by (rule set_update_cases)
    then show ?thesis using new old by fastforce
  qed
  then show ?thesis by (simp add: nonneg_def)
qed

lemma endEvent_reserved:
  assumes "symmetric s" "j < length (eventQueue s)"
  shows "availCap (endEvent j s) u v + reserved (endEvent j s) u v = availCap s u v + reserved s u v"
proof -
  have av: "symT (availCap s)" and rs: "symT (resources (eventQueue s ! j))"
    using assms by (simp_all add: symmetric_def)
  note t = reclaim_total [OF av rs, of u v]
  have "reserved (endEvent j s) u v = reserved s u v - resources (eventQueue s ! j) u v
      + snd (reclaim (availCap s, resources (eventQueue s ! j))) u v"
    unfolding reserved_def endEvent_queue by (simp add: sum_list_map_update [OF assms(2)])
  with t show ?thesis by (simp add: endEvent_availCap)
qed

lemma endEvent_conserved:
  "symmetric s \<Longrightarrow> j < length (eventQueue s) \<Longrightarrow> conserved s \<Longrightarrow> conserved (endEvent j s)"
  by (simp add: conserved_def endEvent_reserved)

lemma endEvent_alt:
  "endEvent j s = s\<lparr>availCap := fst (reclaim (availCap s, resources (eventQueue s ! j))),
     eventQueue := (eventQueue s)[j := (eventQueue s ! j)\<lparr>running := False,
       resources := snd (reclaim (availCap s, resources (eventQueue s ! j)))\<rparr>]\<rparr>"
  by (simp add: endEvent_def Let_def split: prod.split)

lemma endEvent_idem:
  assumes "j < length (eventQueue s)"
  shows "endEvent j (endEvent j s) = endEvent j s"
proof -
  let ?x = "reclaim (availCap s, resources (eventQueue s ! j))"
  have e: "eventQueue (endEvent j s) ! j = (eventQueue s ! j)\<lparr>running := False, resources := snd ?x\<rparr>"
    unfolding endEvent_queue using assms by simp
  have "reclaim (availCap (endEvent j s), resources (eventQueue (endEvent j s) ! j)) = reclaim ?x"
    by (simp add: e endEvent_availCap)
  also have "\<dots> = ?x" by (rule reclaim_idem)
  finally have r: "reclaim (availCap (endEvent j s), resources (eventQueue (endEvent j s) ! j)) = ?x" .
  have "endEvent j (endEvent j s) = (endEvent j s)\<lparr>availCap := fst ?x,
     eventQueue := (eventQueue (endEvent j s))[j := (eventQueue (endEvent j s) ! j)\<lparr>running := False,
       resources := snd ?x\<rparr>]\<rparr>"
    by (subst endEvent_alt) (simp only: r)
  also have "\<dots> = endEvent j s"
    by (simp add: e) (simp add: endEvent_alt)
  finally show ?thesis .
qed

section \<open>The time update\<close>

lemma fold_invariant:
  "P s \<Longrightarrow> (\<And>j t. j \<in> set js \<Longrightarrow> P t \<Longrightarrow> P (f j t)) \<Longrightarrow> P (fold f js s)"
  by (induction js arbitrary: s) simp_all

lemma timeUpdate_step_cases:
  "timeUpdate_step i j s = (if expires s i j then endEvent j s else s)"
  by (simp add: timeUpdate_step_def expires_def)

lemma timeUpdate_step_fields [simp]:
  "capacity (timeUpdate_step i j s) = capacity s" "propDelay (timeUpdate_step i j s) = propDelay s"
  "cost (timeUpdate_step i j s) = cost s"
  "length (eventQueue (timeUpdate_step i j s)) = length (eventQueue s)"
  "totalHops (timeUpdate_step i j s) = totalHops s" "totalProp (timeUpdate_step i j s) = totalProp s"
  "blockedCalls (timeUpdate_step i j s) = blockedCalls s" "succCalls (timeUpdate_step i j s) = succCalls s"
  "totalCalls (timeUpdate_step i j s) = totalCalls s"
  by (simp_all add: timeUpdate_step_cases)

lemma timeUpdate_step_parsed:
  "map parsed (eventQueue (timeUpdate_step i j s)) = map parsed (eventQueue s)"
  by (simp add: timeUpdate_step_cases endEvent_parsed)


lemma timeUpdate_frame:
  assumes "\<And>j t. f (timeUpdate_step i j t) = f t"
  shows "f (timeUpdate i s) = f s"
  unfolding timeUpdate_def
  by (rule fold_invariant [where P = "\<lambda>t. f t = f s"]) (simp_all add: assms)

lemma timeUpdate_fields [simp]:
  "capacity (timeUpdate i s) = capacity s" "propDelay (timeUpdate i s) = propDelay s"
  "cost (timeUpdate i s) = cost s"
  "length (eventQueue (timeUpdate i s)) = length (eventQueue s)"
  "totalHops (timeUpdate i s) = totalHops s" "totalProp (timeUpdate i s) = totalProp s"
  "blockedCalls (timeUpdate i s) = blockedCalls s" "succCalls (timeUpdate i s) = succCalls s"
  "totalCalls (timeUpdate i s) = totalCalls s"
  by (rule timeUpdate_frame, simp)+

lemma timeUpdate_parsed: "map parsed (eventQueue (timeUpdate i s)) = map parsed (eventQueue s)"
  by (rule timeUpdate_frame) (rule timeUpdate_step_parsed)

lemma timeUpdate_symmetric:
  assumes "symmetric s" "i \<le> length (eventQueue s)"
  shows "symmetric (timeUpdate i s)"
proof -
  have "symmetric (timeUpdate i s) \<and> length (eventQueue (timeUpdate i s)) = length (eventQueue s)"
    unfolding timeUpdate_def
    by (rule fold_invariant [where P = "\<lambda>t. symmetric t \<and> length (eventQueue t) = length (eventQueue s)"])
       (use assms in \<open>auto simp: timeUpdate_step_cases endEvent_symmetric\<close>)
  then show ?thesis ..
qed

lemma timeUpdate_nonneg:
  assumes "nonneg s" "i \<le> length (eventQueue s)"
  shows "nonneg (timeUpdate i s)"
proof -
  have "nonneg (timeUpdate i s) \<and> length (eventQueue (timeUpdate i s)) = length (eventQueue s)"
    unfolding timeUpdate_def
    by (rule fold_invariant [where P = "\<lambda>t. nonneg t \<and> length (eventQueue t) = length (eventQueue s)"])
       (use assms in \<open>auto simp: timeUpdate_step_cases endEvent_nonneg\<close>)
  then show ?thesis ..
qed

lemma timeUpdate_conserved:
  assumes "symmetric s" "conserved s" "i \<le> length (eventQueue s)"
  shows "conserved (timeUpdate i s)"
proof -
  let ?P = "\<lambda>t. symmetric t \<and> conserved t \<and> length (eventQueue t) = length (eventQueue s)"
  have "?P (timeUpdate i s)"
    unfolding timeUpdate_def
    by (rule fold_invariant [where P = ?P])
       (use assms in \<open>auto simp: timeUpdate_step_cases endEvent_symmetric endEvent_conserved\<close>)
  then show ?thesis by simp
qed

subsection \<open>What one time update does\<close>









section \<open>Reserving a path\<close>

lemma reserveLink_fields [simp]:
  "capacity (reserveLink c v pv s) = capacity s" "propDelay (reserveLink c v pv s) = propDelay s"
  "cost (reserveLink c v pv s) = cost s"
  "length (eventQueue (reserveLink c v pv s)) = length (eventQueue s)"
  "blockedCalls (reserveLink c v pv s) = blockedCalls s" "succCalls (reserveLink c v pv s) = succCalls s"
  "totalCalls (reserveLink c v pv s) = totalCalls s"
  "totalHops (reserveLink c v pv s) = totalHops s + 1"
  "totalProp (reserveLink c v pv s) = totalProp s + propDelay s v pv"
  by (simp_all add: reserveLink_def Let_def)

lemma set2_pair:
  "set2 (set2 t pv v x) v pv (set2 t pv v x pv v) a b =
     (if (a = pv \<and> b = v) \<or> (a = v \<and> b = pv) then x else t a b)"
  by (simp add: set2_def)

lemma reserveLink_availCap:
  "availCap (reserveLink c v pv s) a b =
     (if (a = pv \<and> b = v) \<or> (a = v \<and> b = pv) then availCap s pv v - 1 else availCap s a b)"
proof -
  have "availCap (reserveLink c v pv s) =
      set2 (set2 (availCap s) pv v (availCap s pv v - 1)) v pv
        (set2 (availCap s) pv v (availCap s pv v - 1) pv v)"
    by (simp add: reserveLink_def Let_def)
  then show ?thesis by (simp only: set2_pair)
qed

lemma reserveLink_queue:
  "eventQueue (reserveLink c v pv s) =
     (eventQueue s)[c := (eventQueue s ! c)\<lparr>resources := held (resources (eventQueue s ! c)) v pv\<rparr>]"
proof -
  have "set2 (set2 rs pv v (rs pv v + 1)) v pv (set2 rs pv v (rs pv v + 1) pv v) = held rs v pv" for rs :: table
    unfolding held_def by (intro ext) (rule set2_pair)
  then show ?thesis by (simp add: reserveLink_def Let_def)
qed

lemma reserveLink_parsed:
  "map parsed (eventQueue (reserveLink c v pv s)) = map parsed (eventQueue s)"
  unfolding reserveLink_queue by (rule map_parsed_update) (simp add: parsed_def)

lemma held_sym: "symT rs \<Longrightarrow> symT (held rs v pv)"
  by (auto simp: symT_def held_def)

lemma reserveLink_symmetric:
  assumes "symmetric s" "c < length (eventQueue s)"
  shows "symmetric (reserveLink c v pv s)"
proof -
  have av: "availCap s a b = availCap s b a" for a b
    using assms(1) by (simp add: symmetric_def symT_def)
  have old: "\<And>e. e \<in> set (eventQueue s) \<Longrightarrow> symT (resources e)"
    using assms(1) by (simp add: symmetric_def)
  have "symT (resources e)" if "e \<in> set (eventQueue (reserveLink c v pv s))" for e
  proof -
    from that have "e = (eventQueue s ! c)\<lparr>resources := held (resources (eventQueue s ! c)) v pv\<rparr>
        \<or> e \<in> set (eventQueue s)"
      unfolding reserveLink_queue by (rule set_update_cases)
    moreover have "symT (held (resources (eventQueue s ! c)) v pv)"
      using assms(2) by (intro held_sym old) simp
    ultimately show ?thesis using old by fastforce
  qed
  moreover have "symT (availCap (reserveLink c v pv s))"
    unfolding symT_def reserveLink_availCap using av by auto
  ultimately show ?thesis using assms(1) by (simp add: symmetric_def)
qed

lemma reserveLink_nonneg:
  assumes "nonneg s" "c < length (eventQueue s)"
  shows "nonneg (reserveLink c v pv s)"
proof -
  have old: "\<And>e a b. e \<in> set (eventQueue s) \<Longrightarrow> 0 \<le> resources e a b"
    using assms(1) by (simp add: nonneg_def)
  have new: "0 \<le> held (resources (eventQueue s ! c)) v pv a b" for a b
    using old [of "eventQueue s ! c"] assms(2) by (simp add: held_def add_nonneg_nonneg)
  have "0 \<le> resources e a b" if "e \<in> set (eventQueue (reserveLink c v pv s))" for e a b
  proof -
    from that have "e = (eventQueue s ! c)\<lparr>resources := held (resources (eventQueue s ! c)) v pv\<rparr>
        \<or> e \<in> set (eventQueue s)"
      unfolding reserveLink_queue by (rule set_update_cases)
    then show ?thesis using new old by fastforce
  qed
  then show ?thesis by (simp add: nonneg_def)
qed

lemma reserveLink_reserved:
  assumes "symmetric s" "c < length (eventQueue s)"
  shows "availCap (reserveLink c v pv s) a b + reserved (reserveLink c v pv s) a b =
         availCap s a b + reserved s a b"
proof -
  have av: "availCap s v pv = availCap s pv v"
    using assms(1) by (simp add: symmetric_def symT_def)
  have "symT (resources (eventQueue s ! c))"
    using assms by (simp add: symmetric_def)
  then have rs: "resources (eventQueue s ! c) v pv = resources (eventQueue s ! c) pv v"
    by (simp add: symT_def)
  have "reserved (reserveLink c v pv s) a b = reserved s a b - resources (eventQueue s ! c) a b
      + held (resources (eventQueue s ! c)) v pv a b"
    unfolding reserved_def reserveLink_queue by (simp add: sum_list_map_update [OF assms(2)])
  then show ?thesis
    unfolding reserveLink_availCap using av rs by (auto simp: held_def)
qed

lemma reserveLink_conserved:
  "symmetric s \<Longrightarrow> c < length (eventQueue s) \<Longrightarrow> conserved s \<Longrightarrow> conserved (reserveLink c v pv s)"
  by (simp add: conserved_def reserveLink_reserved)

lemma reserve_invariant:
  assumes "reserve p c v s = Some s'" and "I s"
    and step: "\<And>v pv t. I t \<Longrightarrow> I (reserveLink c v pv t)"
  shows "I s'"
proof -
  have "c = c \<longrightarrow> I s \<longrightarrow> I s'"
  proof (rule reserve.raw_induct [where P = "\<lambda>p' c' v' t t'. c' = c \<longrightarrow> I t \<longrightarrow> I t'", OF _ assms(1)])
    fix rsv p' c' v' t t'
    assume IH: "\<And>p c' v t y. rsv p c' v t = Some y \<Longrightarrow> c' = c \<longrightarrow> I t \<longrightarrow> I y"
      and body: "(if - 1 < p' v' then rsv p' c' (nat (p' v')) (reserveLink c' v' (nat (p' v')) t)
                  else Some t) = Some t'"
    show "c' = c \<longrightarrow> I t \<longrightarrow> I t'"
    proof (cases "- 1 < p' v'")
      case True
      with body have "rsv p' c' (nat (p' v')) (reserveLink c' v' (nat (p' v')) t) = Some t'" by simp
      from IH [OF this] step show ?thesis by blast
    next
      case False
      with body show ?thesis by simp
    qed
  qed
  with assms(2) show ?thesis by simp
qed

lemma updateState_invariant:
  assumes "updateState src dest ec c s = Some (r, s')" and "I s"
    and step: "\<And>v pv t. I t \<Longrightarrow> I (reserveLink c v pv t)"
  shows "I s'"
proof -
  obtain f d p where sr: "search (availCap s) (availCap s) ec src dest = (f, d, p)"
    by (cases "search (availCap s) (availCap s) ec src dest") auto
  show ?thesis
  proof (cases "f = 1")
    case True
    with assms(1) sr have "reserve p c dest s = Some s'"
      by (auto simp: updateState_def)
    then show ?thesis using assms(2) step by (rule reserve_invariant)
  next
    case False
    with assms(1) sr have "s' = s" by (simp add: updateState_def)
    with assms(2) show ?thesis by simp
  qed
qed

lemma updateState_blocked:
  "updateState src dest ec c s = Some (False, s') \<Longrightarrow> s' = s"
  by (auto simp: updateState_def split: prod.splits if_splits)

section \<open>The small steps of an event\<close>

subsection \<open>Frames of the small steps\<close>

lemma updateCost_eq: "\<exists>c. updateCost p s = s\<lparr>cost := c\<rparr>"
  by (cases p) (auto simp: updateCost_def updateSHPF_eq updateLLP_eq updateMFC_eq intro: exI [of _ "cost s"])

lemma inv_cost [simp]:
  "symmetric (s\<lparr>cost := c\<rparr>) = symmetric s" "conserved (s\<lparr>cost := c\<rparr>) = conserved s"
  "nonneg (s\<lparr>cost := c\<rparr>) = nonneg s"
  by (simp_all add: symmetric_def conserved_def nonneg_def reserved_def)

lemma updateCost_fields [simp]:
  "availCap (updateCost p s) = availCap s" "capacity (updateCost p s) = capacity s"
  "propDelay (updateCost p s) = propDelay s" "eventQueue (updateCost p s) = eventQueue s"
  "totalHops (updateCost p s) = totalHops s" "totalProp (updateCost p s) = totalProp s"
  "blockedCalls (updateCost p s) = blockedCalls s" "succCalls (updateCost p s) = succCalls s"
  "totalCalls (updateCost p s) = totalCalls s"
  using updateCost_eq [of p s] by auto

lemma updateCost_inv [simp]:
  "symmetric (updateCost p s) = symmetric s" "conserved (updateCost p s) = conserved s"
  "nonneg (updateCost p s) = nonneg s"
  using updateCost_eq [of p s] by auto

lemma setRunning_fields [simp]:
  "availCap (setRunning i b s) = availCap s" "capacity (setRunning i b s) = capacity s"
  "propDelay (setRunning i b s) = propDelay s" "cost (setRunning i b s) = cost s"
  "length (eventQueue (setRunning i b s)) = length (eventQueue s)"
  "totalHops (setRunning i b s) = totalHops s" "totalProp (setRunning i b s) = totalProp s"
  "blockedCalls (setRunning i b s) = blockedCalls s" "succCalls (setRunning i b s) = succCalls s"
  "totalCalls (setRunning i b s) = totalCalls s"
  by (simp_all add: setRunning_def)

lemma setRunning_resources:
  "map resources (eventQueue (setRunning i b s)) = map resources (eventQueue s)"
proof (cases "i < length (eventQueue s)")
  case True
  have "map resources (eventQueue (setRunning i b s)) =
        (map resources (eventQueue s))[i := map resources (eventQueue s) ! i]"
    using True by (simp add: setRunning_def map_update)
  then show ?thesis by (simp only: list_update_id)
next
  case False
  then have "(eventQueue s)[i := (eventQueue s ! i)\<lparr>running := b\<rparr>] = eventQueue s"
    by (intro list_update_beyond) simp
  then show ?thesis by (simp add: setRunning_def)
qed

lemma setRunning_parsed:
  "map parsed (eventQueue (setRunning i b s)) = map parsed (eventQueue s)"
  unfolding setRunning_def by (simp, rule map_parsed_update) (simp add: parsed_def)

lemma resources_inv:
  assumes "map resources (eventQueue t) = map resources (eventQueue s)"
    and "availCap t = availCap s" "capacity t = capacity s"
  shows "symmetric t = symmetric s" "conserved t = conserved s" "nonneg t = nonneg s"
proof -
  have set: "resources ` set (eventQueue t) = resources ` set (eventQueue s)"
    using assms(1) by (metis set_map)
  have "(\<forall>e \<in> set (eventQueue t). P (resources e)) = (\<forall>e \<in> set (eventQueue s). P (resources e))" for P
    using set by (metis (mono_tags, lifting) image_iff)
  note all = this
  show "symmetric t = symmetric s"
    unfolding symmetric_def assms(2,3) using all [of symT] by simp
  show "nonneg t = nonneg s"
    unfolding nonneg_def using all [of "\<lambda>r. \<forall>u v. 0 \<le> r u v"] by simp
  have "map (\<lambda>e. resources e u v) (eventQueue t) = map (\<lambda>e. resources e u v) (eventQueue s)" for u v
  proof -
    have "map (\<lambda>e. resources e u v) q = map (\<lambda>r. r u v) (map resources q)" for q :: "CallEvent list"
      by simp
    then show ?thesis using assms(1) by presburger
  qed
  then show "conserved t = conserved s"
    by (simp add: conserved_def reserved_def assms(2,3))
qed

lemma setRunning_inv [simp]:
  "symmetric (setRunning i b s) = symmetric s" "conserved (setRunning i b s) = conserved s"
  "nonneg (setRunning i b s) = nonneg s"
  by (rule resources_inv [OF setRunning_resources]; simp)+

section \<open>Invariants of one event\<close>

lemma inv_counters [simp]:
  "symmetric (s\<lparr>succCalls := n\<rparr>) = symmetric s" "conserved (s\<lparr>succCalls := n\<rparr>) = conserved s"
  "nonneg (s\<lparr>succCalls := n\<rparr>) = nonneg s"
  "symmetric (s\<lparr>blockedCalls := n\<rparr>) = symmetric s" "conserved (s\<lparr>blockedCalls := n\<rparr>) = conserved s"
  "nonneg (s\<lparr>blockedCalls := n\<rparr>) = nonneg s"
  by (simp_all add: symmetric_def conserved_def nonneg_def reserved_def)

lemma loadEvent_fields [simp]:
  "capacity (loadEvent p i s) = capacity s" "propDelay (loadEvent p i s) = propDelay s"
  "length (eventQueue (loadEvent p i s)) = length (eventQueue s)"
  "totalHops (loadEvent p i s) = totalHops s" "totalProp (loadEvent p i s) = totalProp s"
  "blockedCalls (loadEvent p i s) = blockedCalls s" "succCalls (loadEvent p i s) = succCalls s"
  "totalCalls (loadEvent p i s) = totalCalls s"
  by (simp_all add: loadEvent_def)

lemma loadEvent_parsed: "map parsed (eventQueue (loadEvent p i s)) = map parsed (eventQueue s)"
  by (simp add: loadEvent_def setRunning_parsed timeUpdate_parsed)

lemma loadEvent_inv:
  assumes "inv s" "i < length (eventQueue s)"
  shows "inv (loadEvent p i s)"
  using assms
  by (simp add: inv_def loadEvent_def timeUpdate_symmetric timeUpdate_conserved timeUpdate_nonneg)

lemma blocked_fields [simp]:
  "availCap (blocked i s) = availCap s" "capacity (blocked i s) = capacity s"
  "propDelay (blocked i s) = propDelay s" "cost (blocked i s) = cost s"
  "length (eventQueue (blocked i s)) = length (eventQueue s)"
  "totalHops (blocked i s) = totalHops s" "totalProp (blocked i s) = totalProp s"
  "blockedCalls (blocked i s) = blockedCalls s + 1" "succCalls (blocked i s) = succCalls s"
  "totalCalls (blocked i s) = totalCalls s"
  by (simp_all add: blocked_def)

lemma blocked_resources: "map resources (eventQueue (blocked i s)) = map resources (eventQueue s)"
  by (simp add: blocked_def setRunning_resources)

lemma blocked_parsed: "map parsed (eventQueue (blocked i s)) = map parsed (eventQueue s)"
  by (simp add: blocked_def setRunning_parsed)

lemma blocked_inv [simp]: "inv (blocked i s) = inv s"
  by (simp add: blocked_def inv_def)

lemma reserveLink_inv:
  "inv t \<and> i < length (eventQueue t) \<Longrightarrow> inv (reserveLink i v pv t) \<and> i < length (eventQueue (reserveLink i v pv t))"
  by (simp add: inv_def reserveLink_symmetric reserveLink_conserved reserveLink_nonneg)

lemma updateState_inv:
  assumes "updateState src dest ec i s = Some (r, s')" "inv s" "i < length (eventQueue s)"
  shows "inv s' \<and> i < length (eventQueue s')"
  by (rule updateState_invariant [where I = "\<lambda>t. inv t \<and> i < length (eventQueue t)", OF assms(1)])
     (simp_all add: assms reserveLink_inv)

lemma updateState_frame:
  assumes "updateState src dest ec i s = Some (r, s')"
  shows "length (eventQueue s') = length (eventQueue s) \<and> map parsed (eventQueue s') = map parsed (eventQueue s)
    \<and> capacity s' = capacity s \<and> propDelay s' = propDelay s \<and> cost s' = cost s
    \<and> blockedCalls s' = blockedCalls s \<and> succCalls s' = succCalls s \<and> totalCalls s' = totalCalls s"
  by (rule updateState_invariant [where I = "\<lambda>t. length (eventQueue t) = length (eventQueue s) \<and>
        map parsed (eventQueue t) = map parsed (eventQueue s)
        \<and> capacity t = capacity s \<and> propDelay t = propDelay s \<and> cost t = cost s
        \<and> blockedCalls t = blockedCalls s \<and> succCalls t = succCalls s \<and> totalCalls t = totalCalls s", OF assms])
     (simp_all add: reserveLink_parsed)

lemma routeEvent_cases:
  assumes "routeEvent p i s = Some s'"
  shows "s' = blocked i s \<or>
    (\<exists>ec r t. updateState (source (eventQueue s ! i)) (destination (eventQueue s ! i)) ec i s = Some (r, t) \<and>
       (s' = blocked i t \<and> r = False \<or> s' = t\<lparr>succCalls := succCalls t + 1\<rparr>))"
  using assms
  by (auto simp: routeEvent_def Let_def split: if_splits option.splits prod.splits)

lemma inv_succCalls [simp]: "inv (s\<lparr>succCalls := n\<rparr>) = inv s"
  by (simp add: inv_def)

lemma routeEvent_inv:
  assumes "routeEvent p i s = Some s'" "inv s" "i < length (eventQueue s)"
  shows "inv s'"
proof -
  from routeEvent_cases [OF assms(1)]
  consider "s' = blocked i s"
    | ec r t where "updateState (source (eventQueue s ! i)) (destination (eventQueue s ! i)) ec i s = Some (r, t)"
        "s' = blocked i t \<or> s' = t\<lparr>succCalls := succCalls t + 1\<rparr>"
    by blast
  then show ?thesis
  proof cases
    case 1
    then show ?thesis using assms(2) by simp
  next
    case 2
    from updateState_inv [OF 2(1) assms(2,3)] have "inv t" ..
    with 2(2) show ?thesis by auto
  qed
qed

lemma routeEvent_frame:
  assumes "routeEvent p i s = Some s'"
  shows "length (eventQueue s') = length (eventQueue s) \<and> map parsed (eventQueue s') = map parsed (eventQueue s)
    \<and> capacity s' = capacity s \<and> propDelay s' = propDelay s \<and> totalCalls s' = totalCalls s"
  using routeEvent_cases [OF assms] updateState_frame
  by (auto simp: blocked_parsed; blast)

lemma statistics_inv [simp]: "inv (statistics s) = inv s"
  by (simp add: statistics_def inv_def symmetric_def conserved_def nonneg_def reserved_def)

lemma statistics_fields [simp]:
  "eventQueue (statistics s) = eventQueue s" "availCap (statistics s) = availCap s"
  "capacity (statistics s) = capacity s" "propDelay (statistics s) = propDelay s"
  "totalCalls (statistics s) = totalCalls s" "succCalls (statistics s) = succCalls s"
  "blockedCalls (statistics s) = blockedCalls s" "totalHops (statistics s) = totalHops s"
  "totalProp (statistics s) = totalProp s"
  by (simp_all add: statistics_def)

lemma clearValues_fields [simp]:
  "availCap (clearValues s) = capacity s" "capacity (clearValues s) = capacity s"
  "propDelay (clearValues s) = propDelay s" "eventQueue (clearValues s) = map reset (eventQueue s)"
  "totalCalls (clearValues s) = totalCalls s"
  by (simp_all add: clearValues_def)

lemma clearValues_parsed: "map parsed (eventQueue (clearValues s)) = map parsed (eventQueue s)"
  by (simp add: parsed_def reset_def)

lemma sum_list_zero: "(\<And>x. x \<in> set xs \<Longrightarrow> f x = (0::int)) \<Longrightarrow> sum_list (map f xs) = 0"
  by (induction xs) simp_all

lemma clearValues_inv:
  assumes "symT (capacity s)"
  shows "inv (clearValues s)"
proof -
  have "reserved (clearValues s) u v = 0" for u v
    unfolding reserved_def by (rule sum_list_zero) (auto simp: reset_def)
  then have "conserved (clearValues s)" by (simp add: conserved_def)
  moreover have "symmetric (clearValues s)"
    using assms by (auto simp: symmetric_def reset_def symT_def)
  moreover have "nonneg (clearValues s)"
    by (auto simp: nonneg_def reset_def)
  ultimately show ?thesis by (simp add: inv_def)
qed

section \<open>Loading the files and the states of a run\<close>

lemma set2_sym_pair: "symT t \<Longrightarrow> symT (set2 (set2 t b a x) a b x)"
  by (auto simp: symT_def set2_def)

lemma loadLink_tables:
  assumes "symT (capacity s)" "symT (propDelay s)" "availCap s = capacity s"
  shows "symT (capacity (loadLink l s)) \<and> symT (propDelay (loadLink l s)) \<and>
         availCap (loadLink l s) = capacity (loadLink l s) \<and> eventQueue (loadLink l s) = eventQueue s
         \<and> totalCalls (loadLink l s) = totalCalls s"
  using assms by (cases l) (simp add: loadLink_def Let_def set2_sym_pair)

lemma load_tables:
  "symT (capacity (fold loadLink topology initState)) \<and> symT (propDelay (fold loadLink topology initState)) \<and>
   availCap (fold loadLink topology initState) = capacity (fold loadLink topology initState) \<and>
   eventQueue (fold loadLink topology initState) = [] \<and> totalCalls (fold loadLink topology initState) = 0"
proof -
  let ?P = "\<lambda>s :: state. symT (capacity s) \<and> symT (propDelay s) \<and> availCap s = capacity s \<and> eventQueue s = []
     \<and> totalCalls s = 0"
  have "?P (fold loadLink topology initState)"
  proof (rule fold_invariant [where P = ?P])
    show "?P initState" by (simp add: initState_def symT_def)
  next
    fix l t assume "?P t"
    then show "?P (loadLink l t)" using loadLink_tables [of t l] by simp
  qed
  then show ?thesis .
qed

lemma loadCall_fields [simp]:
  "eventQueue (loadCall c s) = eventQueue s @ [callOf c]" "capacity (loadCall c s) = capacity s"
  "availCap (loadCall c s) = availCap s" "propDelay (loadCall c s) = propDelay s"
  "totalCalls (loadCall c s) = totalCalls s + 1"
  by (cases c; simp add: loadCall_def callOf_def)+

lemma loadCalls:
  "eventQueue (fold loadCall calls s) = eventQueue s @ map callOf calls \<and>
   capacity (fold loadCall calls s) = capacity s \<and> availCap (fold loadCall calls s) = availCap s \<and>
   propDelay (fold loadCall calls s) = propDelay s \<and>
   totalCalls (fold loadCall calls s) = totalCalls s + int (length calls)"
proof (induction calls arbitrary: s)
  case Nil
  show ?case by simp
next
  case (Cons c calls)
  have "fold loadCall (c # calls) s = fold loadCall calls (loadCall c s)" by simp
  then show ?case using Cons [of "loadCall c s"] by simp
qed

lemma load_queue: "eventQueue (load topology calls) = map callOf calls"
  by (simp add: load_def loadCalls load_tables)

lemma load_totalCalls: "totalCalls (load topology calls) = int (length calls)"
  by (simp add: load_def loadCalls load_tables)

lemma load_availCap: "availCap (load topology calls) = capacity (load topology calls)"
  by (simp add: load_def loadCalls load_tables)

lemma load_symT: "symT (capacity (load topology calls))"
  by (simp add: load_def loadCalls load_tables)

lemma callOf_resources: "resources (callOf c) = (\<lambda>i j. 0)"
  by (cases c) (simp add: callOf_def mkCallEvent_def)

lemma load_inv: "inv (load topology calls)"
proof -
  have "reserved (load topology calls) u v = 0" for u v
    unfolding reserved_def by (rule sum_list_zero) (auto simp: load_queue callOf_resources)
  then have "conserved (load topology calls)" by (simp add: conserved_def load_availCap)
  moreover have "symmetric (load topology calls)"
    using load_symT [of topology calls]
    by (auto simp: symmetric_def load_availCap load_queue callOf_resources symT_def)
  moreover have "nonneg (load topology calls)"
    by (auto simp: nonneg_def load_queue callOf_resources)
  ultimately show ?thesis by (simp add: inv_def)
qed

lemma load_parsed:
  "map parsed (eventQueue (load topology calls)) =
     map (\<lambda>(a, b, c, d). (a, d, a + d, node b, node c)) calls"
  by (simp add: load_queue) (auto simp: callOf_def parsed_def mkCallEvent_def)

lemma inv_symT_capacity: "inv s \<Longrightarrow> symT (capacity s)"
  by (simp add: inv_def symmetric_def)

lemma parsed_reset [simp]: "parsed \<circ> reset = parsed"
  by (intro ext) (simp add: parsed_def reset_def)

lemma reached_frame:
  "reached s0 s \<Longrightarrow> length (eventQueue s) = length (eventQueue s0) \<and>
     map parsed (eventQueue s) = map parsed (eventQueue s0) \<and> capacity s = capacity s0 \<and>
     propDelay s = propDelay s0 \<and> totalCalls s = totalCalls s0"
proof (induction rule: reached.induct)
  case start
  show ?case by simp
next
  case (release s i)
  then show ?case by (simp add: timeUpdate_parsed)
next
  case (loaded s i p)
  then show ?case by (simp add: loadEvent_parsed)
next
  case (routed s i p s')
  from routeEvent_frame [OF routed(3)] routed(4) show ?case by simp
next
  case (stats s)
  then show ?case by simp
next
  case (cleared s)
  then show ?case by simp
qed

lemma reached_inv: "reached s0 s \<Longrightarrow> inv s0 \<Longrightarrow> inv s"
proof (induction rule: reached.induct)
  case start
  then show ?case by simp
next
  case (release s i)
  then show ?case
    by (simp add: inv_def timeUpdate_symmetric timeUpdate_conserved timeUpdate_nonneg)
next
  case (loaded s i p)
  then show ?case by (simp add: loadEvent_inv)
next
  case (routed s i p s')
  then show ?case using routeEvent_inv by blast
next
  case (stats s)
  then show ?case by simp
next
  case (cleared s)
  then show ?case by (simp add: clearValues_inv inv_symT_capacity)
qed

lemma processEvent_reached:
  assumes "reached s0 s" "i < length (eventQueue s)" "processEvent p i s = Some s'"
  shows "reached s0 s'"
proof -
  have "reached s0 (loadEvent p i s)" using assms(1,2) by (rule reached.loaded)
  moreover have "i < length (eventQueue (loadEvent p i s))" using assms(2) by simp
  ultimately show ?thesis
    using assms(3) unfolding processEvent_def by (rule reached.routed)
qed

lemma simLoop_reached:
  assumes "simLoop p i s = Some s'" "reached s0 s"
  shows "reached s0 s'"
proof -
  have "reached s0 s \<longrightarrow> reached s0 s'"
  proof (rule simLoop.raw_induct [where P = "\<lambda>p i s s'. reached s0 s \<longrightarrow> reached s0 s'", OF _ assms(1)])
    fix lp p i s r
    assume IH: "\<And>p i s y. lp p i s = Some y \<Longrightarrow> reached s0 s \<longrightarrow> reached s0 y"
      and body: "(if i < length (eventQueue s)
                  then case processEvent p i s of None \<Rightarrow> None | Some s' \<Rightarrow> lp p (i + 1) s'
                  else Some s) = Some r"
    show "reached s0 s \<longrightarrow> reached s0 r"
    proof (cases "i < length (eventQueue s)")
      case True
      with body obtain t where t: "processEvent p i s = Some t" "lp p (i + 1) t = Some r"
        by (auto split: option.splits)
      from IH [OF t(2)] processEvent_reached [OF _ True t(1)] show ?thesis by blast
    next
      case False
      with body show ?thesis by simp
    qed
  qed
  with assms(2) show ?thesis by simp
qed

lemma runPolicy_reached:
  "runPolicy p s = Some r \<Longrightarrow> reached s0 s \<Longrightarrow> reached s0 r"
  by (auto simp: runPolicy_def intro: reached.stats simLoop_reached)

lemma runPolicies_reached:
  "runPolicies ps s = Some (rs, s') \<Longrightarrow> reached s0 s \<Longrightarrow> reached s0 s' \<and> (\<forall>r \<in> set rs. reached s0 r)"
proof (induction ps arbitrary: s rs s')
  case Nil
  then show ?case by simp
next
  case (Cons p ps)
  from Cons.prems(1) obtain r rs' where r: "runPolicy p s = Some r"
    and rest: "runPolicies ps (clearValues r) = Some (rs', s')" and rs: "rs = r # rs'"
    by (auto split: option.splits)
  have "reached s0 r" using r Cons.prems(2) by (rule runPolicy_reached)
  moreover from this have "reached s0 (clearValues r)" by (rule reached.cleared)
  from Cons.IH [OF rest this] have "reached s0 s' \<and> (\<forall>r \<in> set rs'. reached s0 r)" .
  ultimately show ?case using rs by simp
qed

section \<open>Evaluation on concrete files, and the claims\<close>

lemma nodes_list:
  "nodes = [0, 1, 2, 3, 4, 5, 6, 7, 8, 9, 10, 11, 12, 13, 14, 15, 16, 17, 18, 19, 20, 21, 22, 23, 24, 25]"
  unfolding nodes_def by code_simp

lemmas run_simps =
  load_def loadLink_def loadCall_def initState_def node_def mkCallEvent_def set2_def
  runPolicy_def simLoop.simps processEvent_def routeEvent_def loadEvent_def blocked_def setRunning_def
  updateCost_def edgeCostOf_def updateState_def reserve.simps reserveLink_def search_def dijkstra.simps
  relax_def initQueue_def trunc_def minDistVertexInQueue_def updateSHPF_eq updateLLP_eq updateMFC_eq
  timeUpdate_def timeUpdate_step_def endEvent_def reclaim_def reclaim_cell_def statistics_def fdiv_def
  emptySHPO_def countHops.simps nodes_list Let_def

lemma valid_linkAB: "validTopology linkAB"
  by (simp add: validTopology_def validNode_def linkAB_def)

lemma valid_threeCalls: "validCalls threeCalls"
  by (simp add: validCalls_def validNode_def threeCalls_def)




section \<open>Symmetry and the parsed fields\<close>

lemma clearValues_symmetric: "symmetric s \<Longrightarrow> symmetric (clearValues s)"
  by (auto simp: symmetric_def reset_def symT_def)

lemma updateState_symmetric:
  assumes "updateState src dest ec i s = Some (r, s')" "symmetric s" "i < length (eventQueue s)"
  shows "symmetric s'"
proof -
  have "symmetric s' \<and> i < length (eventQueue s')"
    by (rule updateState_invariant [where I = "\<lambda>t. symmetric t \<and> i < length (eventQueue t)", OF assms(1)])
       (simp_all add: assms reserveLink_symmetric)
  then show ?thesis ..
qed

lemma load_symmetric: "symmetric (load topology calls)"
  using load_inv by (simp add: inv_def)

lemma reached_length:
  "reached (load topology calls) s \<Longrightarrow> length (eventQueue s) = length calls"
  using reached_frame [of "load topology calls" s] by (simp add: load_queue)

text \<open>
  Claim C10 (symmetry). The topology load gives tables that read the same in both
  directions of every pair of nodes; in every state \<open>s\<close> that a run reaches, the available
  capacity and the reservation table of every event are symmetric, and a release by the time
  update, a reservation by the path search and the reset between two policies, done in such
  a state, give a symmetric state again.
\<close>

theorem table_symmetry:
  assumes "validTopology topology" and "validCalls calls"
    and "reached (load topology calls) s"
  shows "symmetric (load topology calls) \<and>
     (\<forall>u v. availCap s u v = availCap s v u \<and>
            (\<forall>e \<in> set (eventQueue s). resources e u v = resources e v u)) \<and>
     (\<forall>i < length (eventQueue s). symmetric (timeUpdate i s) \<and>
        (\<forall>src dst ec r s'. updateState src dst ec i s = Some (r, s') \<longrightarrow> symmetric s')) \<and>
     symmetric (clearValues s)"
proof -
  have s: "symmetric s"
    using reached_inv [OF assms(3) load_inv] by (simp add: inv_def)
  then have "\<forall>u v. availCap s u v = availCap s v u \<and>
            (\<forall>e \<in> set (eventQueue s). resources e u v = resources e v u)"
    by (simp add: symmetric_def symT_def)
  moreover have "\<forall>i < length (eventQueue s). symmetric (timeUpdate i s) \<and>
        (\<forall>src dst ec r s'. updateState src dst ec i s = Some (r, s') \<longrightarrow> symmetric s')"
    using s by (auto intro: timeUpdate_symmetric updateState_symmetric)
  ultimately show ?thesis
    using s by (simp add: load_symmetric clearValues_symmetric)
qed

lemma threeCalls_SDPF:
  "map_option (\<lambda>s. (availCap s 0 1, availCap s 1 0, map (\<lambda>e. (resources e 0 1, resources e 1 0)) (eventQueue s)))
     (simLoop SDPF 0 (load linkAB threeCalls)) = Some (0, 0, [(1, 1), (1, 1), (0, 0)])"
  by (simp add: run_simps linkAB_def threeCalls_def)

theorem table_symmetry_witness:
  "validTopology linkAB \<and> validCalls threeCalls \<and>
   (\<exists>s. simLoop SDPF 0 (load linkAB threeCalls) = Some s \<and> reached (load linkAB threeCalls) s \<and>
     availCap s 0 1 = 0 \<and> availCap s 1 0 = 0 \<and>
     map (\<lambda>e. (resources e 0 1, resources e 1 0)) (eventQueue s) = [(1, 1), (1, 1), (0, 0)] \<and>
     symmetric (timeUpdate 2 s) \<and> symmetric (clearValues s))"
proof -
  obtain s :: state where s: "simLoop SDPF 0 (load linkAB threeCalls) = Some s"
    "availCap s 0 1 = 0" "availCap s 1 0 = 0"
    "map (\<lambda>e. (resources e 0 1, resources e 1 0)) (eventQueue s) = [(1, 1), (1, 1), (0, 0)]"
    using threeCalls_SDPF by (auto simp: map_option_case split: option.splits)
  have r: "reached (load linkAB threeCalls) s"
    using s(1) reached.start by (rule simLoop_reached)
  have "length (eventQueue s) = 3"
    using reached_length [OF r] by (simp add: threeCalls_def)
  then have "symmetric (timeUpdate 2 s) \<and> symmetric (clearValues s)"
    using table_symmetry [OF valid_linkAB valid_threeCalls r] by simp
  then have sym: "symmetric (timeUpdate 2 s)" "symmetric (clearValues s)" by simp_all
  have "simLoop SDPF 0 (load linkAB threeCalls) = Some s \<and> reached (load linkAB threeCalls) s \<and>
     availCap s 0 1 = 0 \<and> availCap s 1 0 = 0 \<and>
     map (\<lambda>e. (resources e 0 1, resources e 1 0)) (eventQueue s) = [(1, 1), (1, 1), (0, 0)] \<and>
     symmetric (timeUpdate 2 s) \<and> symmetric (clearValues s)"
    by (intro conjI) (fact s r sym)+
  then have "\<exists>s. simLoop SDPF 0 (load linkAB threeCalls) = Some s \<and> reached (load linkAB threeCalls) s \<and>
     availCap s 0 1 = 0 \<and> availCap s 1 0 = 0 \<and>
     map (\<lambda>e. (resources e 0 1, resources e 1 0)) (eventQueue s) = [(1, 1), (1, 1), (0, 0)] \<and>
     symmetric (timeUpdate 2 s) \<and> symmetric (clearValues s)"
    by (rule exI)
  with valid_linkAB valid_threeCalls show ?thesis by (intro conjI)
qed

text \<open>
  Claim C8 (parsed fields). In every state that a run reaches from the loaded files, the
  reset between two policies included, the arrival time, duration, end time, source and
  destination of every event are those parsed from the workload file; the two remaining
  fields of an event are the running flag and the reservation table.
\<close>

theorem parsed_fields_kept:
  assumes "validTopology topology" and "validCalls calls"
    and "reached (load topology calls) s"
  shows "map parsed (eventQueue s) = map (\<lambda>(a, b, c, d). (a, d, a + d, node b, node c)) calls"
  using reached_frame [OF assms(3)] by (simp add: load_parsed)

lemma threeCalls_twoPolicies:
  "map_option (\<lambda>(rs, s). (map succCalls rs, map running (eventQueue (rs ! 0)), map running (eventQueue s)))
     (runPolicies [SHPF] (load linkAB threeCalls)) = Some ([2], [True, True, False], [False, False, False])"
  by (simp add: run_simps linkAB_def threeCalls_def clearValues_def reset_def)

theorem parsed_fields_kept_witness:
  "validTopology linkAB \<and> validCalls threeCalls \<and>
   (\<exists>r s. runPolicies [SHPF] (load linkAB threeCalls) = Some ([r], s) \<and>
     reached (load linkAB threeCalls) r \<and> reached (load linkAB threeCalls) s \<and>
     map running (eventQueue r) = [True, True, False] \<and>
     map parsed (eventQueue r) = [(0, 10, 10, 0, 1), (1, 10, 11, 0, 1), (2, 10, 12, 0, 1)] \<and>
     map parsed (eventQueue s) = [(0, 10, 10, 0, 1), (1, 10, 11, 0, 1), (2, 10, 12, 0, 1)])"
proof -
  obtain rs and s :: state where s: "runPolicies [SHPF] (load linkAB threeCalls) = Some (rs, s)"
    "map running (eventQueue (rs ! 0)) = [True, True, False]"
    using threeCalls_twoPolicies by (auto simp: map_option_case split: option.splits)
  from s(1) obtain r where rs: "rs = [r]"
    by (auto split: option.splits)
  have reach: "reached (load linkAB threeCalls) s \<and> (\<forall>r \<in> set rs. reached (load linkAB threeCalls) r)"
    using s(1) reached.start by (rule runPolicies_reached)
  then have r: "reached (load linkAB threeCalls) r" and s': "reached (load linkAB threeCalls) s"
    by (simp_all add: rs)
  have calls: "map (\<lambda>(a, b, c, d). (a, d, a + d, node b, node c)) threeCalls =
      [(0, 10, 10, 0, 1), (1, 10, 11, 0, 1), (2, 10, 12, 0, 1)]"
    by (simp add: threeCalls_def node_def)
  have run: "runPolicies [SHPF] (load linkAB threeCalls) = Some ([r], s)"
    using s(1) rs by simp
  have flags: "map running (eventQueue r) = [True, True, False]"
    using s(2) rs by simp
  have pr: "map parsed (eventQueue r) = [(0, 10, 10, 0, 1), (1, 10, 11, 0, 1), (2, 10, 12, 0, 1)]"
    using parsed_fields_kept [OF valid_linkAB valid_threeCalls r] unfolding calls .
  have ps: "map parsed (eventQueue s) = [(0, 10, 10, 0, 1), (1, 10, 11, 0, 1), (2, 10, 12, 0, 1)]"
    using parsed_fields_kept [OF valid_linkAB valid_threeCalls s'] unfolding calls .
  have "runPolicies [SHPF] (load linkAB threeCalls) = Some ([r], s) \<and>
     reached (load linkAB threeCalls) r \<and> reached (load linkAB threeCalls) s \<and>
     map running (eventQueue r) = [True, True, False] \<and>
     map parsed (eventQueue r) = [(0, 10, 10, 0, 1), (1, 10, 11, 0, 1), (2, 10, 12, 0, 1)] \<and>
     map parsed (eventQueue s) = [(0, 10, 10, 0, 1), (1, 10, 11, 0, 1), (2, 10, 12, 0, 1)]"
    by (intro conjI) (fact run r s' flags pr ps)+
  then have "\<exists>r s. runPolicies [SHPF] (load linkAB threeCalls) = Some ([r], s) \<and>
     reached (load linkAB threeCalls) r \<and> reached (load linkAB threeCalls) s \<and>
     map running (eventQueue r) = [True, True, False] \<and>
     map parsed (eventQueue r) = [(0, 10, 10, 0, 1), (1, 10, 11, 0, 1), (2, 10, 12, 0, 1)] \<and>
     map parsed (eventQueue s) = [(0, 10, 10, 0, 1), (1, 10, 11, 0, 1), (2, 10, 12, 0, 1)]"
    by (intro exI)
  with valid_linkAB valid_threeCalls show ?thesis by (intro conjI)
qed

section \<open>Expiry\<close>



lemma valid_twoLinks: "validTopology twoLinks"
  by (simp add: validTopology_def validNode_def twoLinks_def)

lemma valid_callAC: "validCalls callAC"
  by (simp add: validCalls_def validNode_def callAC_def)




section \<open>Blocked calls and the second release\<close>

lemma updateState_found:
  assumes "updateState src dest ec i s = Some (r, t)"
  shows "r = (fst (search (availCap s) (availCap s) ec src dest) = 1)"
    and "fst (search (availCap s) (availCap s) ec src dest) \<noteq> 1 \<Longrightarrow> t = s"
proof -
  obtain f d p where sr: "search (availCap s) (availCap s) ec src dest = (f, d, p)"
    by (cases "search (availCap s) (availCap s) ec src dest") auto
  show "r = (fst (search (availCap s) (availCap s) ec src dest) = 1)"
    using assms sr by (cases "f = 1") (auto simp: updateState_def)
  show "t = s" if "fst (search (availCap s) (availCap s) ec src dest) \<noteq> 1"
    using assms sr that by (simp add: updateState_def)
qed

lemma routeEvent_other:
  assumes "p \<noteq> SHPO" "routeEvent p i s = Some s'"
  shows "\<exists>r t. updateState (source (eventQueue s ! i)) (destination (eventQueue s ! i)) (edgeCostOf p s) i s
            = Some (r, t) \<and> s' = (if r then t\<lparr>succCalls := succCalls t + 1\<rparr> else blocked i t)"
proof (cases "updateState (source (eventQueue s ! i)) (destination (eventQueue s ! i)) (edgeCostOf p s) i s")
  case None
  with assms show ?thesis by (simp add: routeEvent_def Let_def)
next
  case (Some x)
  obtain r t where x: "x = (r, t)" by (cases x)
  from assms Some x have "s' = (if r then t\<lparr>succCalls := succCalls t + 1\<rparr> else blocked i t)"
    by (cases r) (simp_all add: routeEvent_def Let_def)
  with Some x show ?thesis by simp
qed

lemma routeEvent_SHPO:
  assumes "routeEvent SHPO i s = Some s'"
  shows "s' = blocked i s \<or>
     (\<exists>r t. updateState (source (eventQueue s ! i)) (destination (eventQueue s ! i)) (cost s) i s
            = Some (r, t) \<and> s' = t\<lparr>succCalls := succCalls t + 1\<rparr>)"
proof -
  let ?src = "source (eventQueue s ! i)" and ?dst = "destination (eventQueue s ! i)"
  obtain hop2 where h2: "emptySHPO s ?src ?dst (cost s) (availCap s) = Some hop2"
    using assms by (cases "emptySHPO s ?src ?dst (cost s) (availCap s)") (simp_all add: routeEvent_def Let_def)
  obtain hopEmpty where hE: "emptySHPO s ?src ?dst (cost s) (capacity s) = Some hopEmpty"
    using assms h2 by (cases "emptySHPO s ?src ?dst (cost s) (capacity s)") (simp_all add: routeEvent_def Let_def)
  show ?thesis
  proof (cases "hop2 > hopEmpty")
    case True
    with assms h2 hE show ?thesis by (simp add: routeEvent_def Let_def)
  next
    case False
    show ?thesis
    proof (cases "updateState ?src ?dst (cost s) i s")
      case None
      with assms h2 hE False show ?thesis by (simp add: routeEvent_def Let_def)
    next
      case (Some x)
      obtain r t where x: "x = (r, t)" by (cases x)
      from assms h2 hE False Some x have "s' = t\<lparr>succCalls := succCalls t + 1\<rparr>"
        by (simp add: routeEvent_def Let_def)
      with Some x show ?thesis by simp
    qed
  qed
qed

lemma edgeCostOf_SHPO [simp]: "edgeCostOf SHPO s = cost s"
  by (simp add: edgeCostOf_def)

lemma unchanged_blocked:
  "availCap (blocked i s) = availCap s \<and> map resources (eventQueue (blocked i s)) = map resources (eventQueue s)
     \<and> totalHops (blocked i s) = totalHops s \<and> totalProp (blocked i s) = totalProp s"
  by (simp add: blocked_resources)

text \<open>
  Claim C5 (a blocked call has no effect). Take the admission decision on a loaded event.
  If the path search of \<open>updateState\<close> finds no path, or if the call is counted as blocked,
  then the available capacity, the reservation table of every event, the hop total and the
  propagation-delay total are what they were before the decision.
\<close>

theorem blocked_call_no_effect:
  assumes "routeEvent p i s = Some s'"
    and "fst (search (availCap s) (availCap s) (edgeCostOf p s)
               (source (eventQueue s ! i)) (destination (eventQueue s ! i))) \<noteq> 1
         \<or> blockedCalls s' \<noteq> blockedCalls s"
  shows "availCap s' = availCap s \<and> map resources (eventQueue s') = map resources (eventQueue s) \<and>
         totalHops s' = totalHops s \<and> totalProp s' = totalProp s"
proof (cases "p = SHPO")
  case False
  from routeEvent_other [OF False assms(1)] obtain r t
    where u: "updateState (source (eventQueue s ! i)) (destination (eventQueue s ! i)) (edgeCostOf p s) i s
            = Some (r, t)"
      and s': "s' = (if r then t\<lparr>succCalls := succCalls t + 1\<rparr> else blocked i t)"
    by blast
  show ?thesis
  proof (cases r)
    case True
    with updateState_found(1) [OF u] have found: "fst (search (availCap s) (availCap s) (edgeCostOf p s)
               (source (eventQueue s ! i)) (destination (eventQueue s ! i))) = 1" by simp
    have "blockedCalls s' = blockedCalls s"
      using updateState_frame [OF u] s' True by simp
    with found assms(2) show ?thesis by simp
  next
    case False
    with updateState_found [OF u] have "t = s" by simp
    with s' False show ?thesis by (simp add: unchanged_blocked)
  qed
next
  case True
  from routeEvent_SHPO [OF assms(1) [unfolded True]]
  consider "s' = blocked i s"
    | r t where "updateState (source (eventQueue s ! i)) (destination (eventQueue s ! i)) (cost s) i s
            = Some (r, t)" "s' = t\<lparr>succCalls := succCalls t + 1\<rparr>"
    by blast
  then show ?thesis
  proof cases
    case 1
    then show ?thesis by (simp add: unchanged_blocked)
  next
    case 2
    have same: "blockedCalls s' = blockedCalls s"
      using updateState_frame [OF 2(1)] 2(2) by simp
    with assms(2) True have "fst (search (availCap s) (availCap s) (cost s)
               (source (eventQueue s ! i)) (destination (eventQueue s ! i))) \<noteq> 1" by simp
    with updateState_found(2) [OF 2(1)] have "t = s" by simp
    with 2(2) show ?thesis by simp
  qed
qed

lemma callAC_blocked:
  "map_option (\<lambda>s'. (blockedCalls s', succCalls s', availCap s' 0 1, totalHops s', totalProp s'))
     (routeEvent SHPF 0 (loadEvent SHPF 0 (load twoLinks callAC))) = Some (1, 0, 1, 0, 0)"
  by (simp add: run_simps twoLinks_def callAC_def)

lemma load_blockedCalls: "blockedCalls (load topology calls) = 0"
proof -
  have "blockedCalls (fold loadLink topology initState) = 0"
    by (rule fold_invariant [where P = "\<lambda>t. blockedCalls t = 0"])
       (auto simp: initState_def loadLink_def Let_def split: prod.splits)
  moreover have "blockedCalls (fold loadCall calls t) = blockedCalls t" for t
    by (rule fold_invariant [where P = "\<lambda>t'. blockedCalls t' = blockedCalls t"])
       (auto simp: loadCall_def split: prod.splits)
  ultimately show ?thesis by (simp add: load_def)
qed

theorem blocked_call_no_effect_witness:
  "\<exists>s'. routeEvent SHPF 0 (loadEvent SHPF 0 (load twoLinks callAC)) = Some s' \<and>
     blockedCalls s' = 1 \<and> blockedCalls (loadEvent SHPF 0 (load twoLinks callAC)) = 0 \<and>
     availCap s' = availCap (loadEvent SHPF 0 (load twoLinks callAC)) \<and>
     map resources (eventQueue s') = map resources (eventQueue (loadEvent SHPF 0 (load twoLinks callAC))) \<and>
     totalHops s' = totalHops (loadEvent SHPF 0 (load twoLinks callAC)) \<and>
     totalProp s' = totalProp (loadEvent SHPF 0 (load twoLinks callAC))"
proof -
  let ?s = "loadEvent SHPF 0 (load twoLinks callAC)"
  obtain s' :: state where s': "routeEvent SHPF 0 ?s = Some s'" "blockedCalls s' = 1"
    using callAC_blocked by (auto simp: map_option_case split: option.splits)
  have b: "blockedCalls ?s = 0" by (simp add: load_blockedCalls)
  with s'(2) have "fst (search (availCap ?s) (availCap ?s) (edgeCostOf SHPF ?s)
               (source (eventQueue ?s ! 0)) (destination (eventQueue ?s ! 0))) \<noteq> 1
         \<or> blockedCalls s' \<noteq> blockedCalls ?s" by simp
  from blocked_call_no_effect [OF s'(1) this]
  have same: "availCap s' = availCap ?s" "map resources (eventQueue s') = map resources (eventQueue ?s)"
    "totalHops s' = totalHops ?s" "totalProp s' = totalProp ?s"
    by simp_all
  have "routeEvent SHPF 0 ?s = Some s' \<and> blockedCalls s' = 1 \<and> blockedCalls ?s = 0 \<and>
     availCap s' = availCap ?s \<and> map resources (eventQueue s') = map resources (eventQueue ?s) \<and>
     totalHops s' = totalHops ?s \<and> totalProp s' = totalProp ?s"
    by (intro conjI) (fact s' b same)+
  then show ?thesis by (rule exI)
qed

text \<open>
  Claim C6 (release is idempotent). Ending an event a second time changes nothing: the two
  release loops find no positive cell any more, the guard of the time update finds the
  event no longer running, and so the whole state, available capacity and every
  reservation table included, is the one after the first release.
\<close>

theorem release_idempotent:
  assumes "j < length (eventQueue s)"
  shows "endEvent j (endEvent j s) = endEvent j s \<and>
         timeUpdate_step i j (endEvent j s) = endEvent j s \<and>
         reclaim (reclaim (availCap s, resources (eventQueue s ! j))) =
           reclaim (availCap s, resources (eventQueue s ! j))"
proof -
  have "\<not> running (eventQueue (endEvent j s) ! j)"
    using assms by (simp add: endEvent_queue)
  then have "timeUpdate_step i j (endEvent j s) = endEvent j s"
    by (simp add: timeUpdate_step_def)
  then show ?thesis
    using endEvent_idem [OF assms] by (simp add: reclaim_idem)
qed

lemma threeCalls_release:
  "map_option (\<lambda>s. (resources (eventQueue s ! 0) 0 1, availCap s 0 1, availCap (endEvent 0 s) 0 1,
       resources (eventQueue (endEvent 0 s) ! 0) 0 1))
     (simLoop SHPF 0 (load linkAB threeCalls)) = Some (1, 0, 1, 0)"
  by (simp add: run_simps linkAB_def threeCalls_def)

theorem release_idempotent_witness:
  "\<exists>s. simLoop SHPF 0 (load linkAB threeCalls) = Some s \<and> 0 < length (eventQueue s) \<and>
     resources (eventQueue s ! 0) 0 1 = 1 \<and> availCap s 0 1 = 0 \<and> availCap (endEvent 0 s) 0 1 = 1 \<and>
     endEvent 0 (endEvent 0 s) = endEvent 0 s"
proof -
  obtain s :: state where s: "simLoop SHPF 0 (load linkAB threeCalls) = Some s"
    "resources (eventQueue s ! 0) 0 1 = 1" "availCap s 0 1 = 0" "availCap (endEvent 0 s) 0 1 = 1"
    using threeCalls_release by (auto simp: map_option_case split: option.splits)
  have r: "reached (load linkAB threeCalls) s"
    using s(1) reached.start by (rule simLoop_reached)
  have len: "0 < length (eventQueue s)"
    using reached_length [OF r] by (simp add: threeCalls_def)
  from release_idempotent [OF len] have idem: "endEvent 0 (endEvent 0 s) = endEvent 0 s" by simp
  have "simLoop SHPF 0 (load linkAB threeCalls) = Some s \<and> 0 < length (eventQueue s) \<and>
     resources (eventQueue s ! 0) 0 1 = 1 \<and> availCap s 0 1 = 0 \<and> availCap (endEvent 0 s) 0 1 = 1 \<and>
     endEvent 0 (endEvent 0 s) = endEvent 0 s"
    by (intro conjI) (fact s len idem)+
  then show ?thesis by (rule exI)
qed

section \<open>Runs on which the code departs from the claims\<close>

text \<open>
  Claim C7 (statistics). The two percentages are computed as the claim says, but the two
  averages are quotients by \<open>succCalls\<close> without any guard. With the links A-B and C-D and
  the single call from A to C, no call is admitted under SHPF: the percentages are 0 and
  100, and both averages are divisions by zero.
\<close>

theorem averages_divide_by_zero:
  "map_option (\<lambda>r. (totalCalls r, succCalls r, blockedCalls r, succPercent r, blockedPercent r, avgHop r, avgProp r))
     (runPolicy SHPF (load twoLinks callAC)) = Some (1, 0, 1, Some 0, Some 100, None, None)"
  by (simp add: run_simps twoLinks_def callAC_def)

text \<open>
  Claim C3 (LLP). Before the search the cost of every pair is 1 minus available capacity over
  capacity (\<open>updateLLP_eq\<close>), but the search does not add these costs up: \<open>alt\<close> is an
  \<open>int\<close>, so every sum is cut to its integer part, and on links with a free circuit the
  cost is below 1. With links A-B, A-C and C-B of two circuits each and two calls from A to
  B, the second search sees cost 1/2 on A-B (one circuit in use) and cost 0 on A-C and C-B,
  both free (the table \<open>cost\<close> of the final state is the one of the second search). The
  path over C has the smaller sum, 0, yet the second call is put on A-B as well: each event
  holds one circuit on A-B and none on A-C or C-B.
\<close>

theorem llp_search_ignores_fractions:
  "map_option (\<lambda>s. (map (\<lambda>e. (resources e 0 1, resources e 0 2, resources e 2 1)) (eventQueue s),
       totalHops s, succCalls s, availCap s 0 1, availCap s 0 2, availCap s 2 1,
       cost s 0 1, cost s 0 2, cost s 2 1))
     (simLoop LLP 0 (load triangle twoCallsAB))
   = Some ([(1, 0, 0), (1, 0, 0)], 2, 2, 0, 2, 2, 1 / 2, 0, 0)"
  by (simp add: run_simps triangle_def twoCallsAB_def)

text \<open>
  Claim C2 (SHPO). \<open>emptySHPO\<close> is called twice with the same table \<open>cost\<close>, which
  \<open>updateSHPF\<close> has filled from the available capacity: 1 on a link with a free circuit,
  0 on a full one. So the search "on the empty network" takes full links for free and
  returns the hop count of a cheapest path, not the least hop count. Seven links: A-C, C-D,
  D-B with two circuits, C-B, A-E, E-F, F-B with one. Four calls fill C-B, A-E, E-F and
  F-B; then a call from A to B arrives. The empty network has the two-hop path A-C-B (both
  capacities are positive) and no link A-B; the only two-hop path is closed, since event 0
  holds the one circuit of C-B, so the shortest available path has three hops, A-C-D-B. The
  claim blocks the call (3 exceeds 2). The code admits it: all five calls are admitted, none
  is blocked, and event 4 holds a circuit on A-C, C-D and D-B (the costless path A-E-F-B made
  the empty-network count 3).
\<close>

theorem shpo_admits_longer_path:
  "map_option (\<lambda>s. (succCalls s, blockedCalls s, totalHops s,
       map (\<lambda>e. (resources e 0 2, resources e 2 3, resources e 3 1, resources e 2 1)) (eventQueue s),
       capacity s 0 2, capacity s 2 1, capacity s 0 1, availCap s 2 1))
     (simLoop SHPO 0 (load sevenLinks fiveCalls))
   = Some (5, 0, 7, [(0, 0, 0, 1), (0, 0, 0, 0), (0, 0, 0, 0), (0, 0, 0, 0), (1, 1, 1, 0)], 2, 1, 0, 0)"
  by (simp add: run_simps sevenLinks_def fiveCalls_def)

section \<open>Unreachable destinations\<close>

lemma sdpf_blocks_delay_999:
  "map_option (\<lambda>r. (succCalls r, blockedCalls r, availCap r 0 1, propDelay r 0 1))
     (simLoop SDPF 0 (load farLink callAB)) = Some (0, 1, 1, 999)"
  by (simp add: run_simps farLink_def callAB_def)

text \<open>
  Claim C9 (999 as infinity). The search does treat 999 as infinity: a vertex leaves the
  queue only with a distance below 999 (\<open>minDistVertexInQueue\<close>), so a destination whose
  paths all cost 999 or more is never found, \<open>updateState\<close> returns false, and SHPF, SDPF,
  LLP and MFC block the call (\<open>sdpf_blocks_delay_999\<close> is the example of the claim). The SHPO
  block does not look at what \<open>updateState\<close> returns. With the links A-B and C-D and a call
  from A to C there is no path at all; both calls of \<open>emptySHPO\<close> return 999 (the final
  state has the tables of the decision, nothing having been reserved), 999 is not greater
  than 999, and the call is counted as successful, with no hop and no circuit reserved.
\<close>

theorem shpo_admits_unreachable:
  "map_option (\<lambda>r. (succCalls r, blockedCalls r, totalHops r, map running (eventQueue r),
       emptySHPO r 0 2 (cost r) (availCap r), emptySHPO r 0 2 (cost r) (capacity r)))
     (simLoop SHPO 0 (load twoLinks callAC)) = Some (1, 0, 0, [True], Some 999, Some 999)"
  by (simp add: run_simps twoLinks_def callAC_def)

end
